theory Spec2Isabelle
  imports Main "HOL-Library.AList" "HOL-Library.Word"
begin

section \<open>The network classifier\<close>

text \<open>
  The server's source is a single TypeScript module. Its pure part is the classifier
  \<^verbatim>\<open>getNetworkGroup\<close> with its helper \<^verbatim>\<open>isPrivateIP\<close>. A JavaScript string is
  modelled as a \<^typ>\<open>string\<close>; the classifier looks only at the characters \<open>.\<close> and
  \<open>0\<close>..\<open>9\<close>, every other character is carried along unread.
\<close>

subsection \<open>The string primitives the classifier calls\<close>

text \<open>\<^verbatim>\<open>/^p/.test(s)\<close> for a literal \<open>p\<close>: \<open>s\<close> starts with \<open>p\<close>.\<close>

definition startsWith :: "string \<Rightarrow> string \<Rightarrow> bool" where
  "startsWith p s = (take (length p) s = p)"

text \<open>
  \<^verbatim>\<open>s.split('.')\<close>: the pieces between the separators, empty pieces included; the
  empty string gives one empty piece. (The second case's \<open>[]\<close> branch is never taken:
  a split has at least one piece.)
\<close>

fun split_on :: "char \<Rightarrow> string \<Rightarrow> string list" where
  "split_on c [] = [[]]"
| "split_on c (x # xs) =
     (if x = c then [] # split_on c xs
      else (case split_on c xs of [] \<Rightarrow> [[x]] | p # ps \<Rightarrow> (x # p) # ps))"

text \<open>\<^verbatim>\<open>parts.join('.')\<close>.\<close>

fun join :: "string \<Rightarrow> string list \<Rightarrow> string" where
  "join sep [] = []"
| "join sep [p] = p"
| "join sep (p # q # ps) = p @ sep @ join sep (q # ps)"

text \<open>\<^verbatim>\<open>parts[i]\<close>: \<^verbatim>\<open>undefined\<close> (here \<open>None\<close>) out of range.\<close>

definition at :: "'a list \<Rightarrow> nat \<Rightarrow> 'a option" where
  "at xs i = (if i < length xs then Some (xs ! i) else None)"

subsection \<open>isPrivateIP and getNetworkGroup\<close>

text \<open>
  The third regular expression is \<^verbatim>\<open>/^172\.(1[6-9]|2[0-9]|3[0-1])\./\<close>: after the
  four characters \<open>172.\<close> come two digits forming 16..31 and then a dot.
\<close>

definition matches_172 :: "string \<Rightarrow> bool" where
  "matches_172 ip =
     (startsWith ''172.'' ip \<and>
      (case drop 4 ip of
         a # b # c # _ \<Rightarrow>
           (a = CHR ''1'' \<and> b \<in> set ''6789'' \<or>
            a = CHR ''2'' \<and> b \<in> set ''0123456789'' \<or>
            a = CHR ''3'' \<and> b \<in> set ''01'') \<and> c = CHR ''.''
       | _ \<Rightarrow> False))"

definition isPrivateIP :: "string \<Rightarrow> bool" where
  "isPrivateIP ip =
     (startsWith ''10.'' ip \<or> startsWith ''192.168.'' ip \<or> matches_172 ip)"

text \<open>
  \<^verbatim>\<open>getNetworkGroup\<close>, branch for branch. When the address is private and none of the
  three tests on \<^verbatim>\<open>parts\<close> succeeds, the source falls out of the \<^verbatim>\<open>if\<close> and reaches the
  public path; the model keeps that fall-through.
\<close>

definition getNetworkGroup :: "string \<Rightarrow> string" where
  "getNetworkGroup ip =
     (let public = join ''.'' (take 3 (split_on CHR ''.'' ip)) in
      if isPrivateIP ip then
        (let parts = split_on CHR ''.'' ip in
         if at parts 0 = Some ''10'' then ''LAN-10''
         else if at parts 0 = Some ''192'' \<and> at parts 1 = Some ''168'' then ''LAN-192.168''
         else if at parts 0 = Some ''172'' then ''LAN-172''
         else public)
      else public)"

subsection \<open>The text of an IPv4 address\<close>

text \<open>
  The peer address the transport reports for an IPv4 connection is four octets in
  decimal, without leading zeros, separated by dots. \<open>dotted a b c d\<close> is that text for
  octets below 256; it serves to state what the classifier does on addresses rather
  than on arbitrary strings.
\<close>

definition digit :: "nat \<Rightarrow> char" where
  "digit n = ''0123456789'' ! (n mod 10)"

definition decimal :: "nat \<Rightarrow> string" where
  "decimal n =
     (if n < 10 then [digit n]
      else if n < 100 then [digit (n div 10), digit (n mod 10)]
      else [digit (n div 100), digit (n div 10 mod 10), digit (n mod 10)])"

definition dotted :: "nat \<Rightarrow> nat \<Rightarrow> nat \<Rightarrow> nat \<Rightarrow> string" where
  "dotted a b c d = decimal a @ ''.'' @ decimal b @ ''.'' @ decimal c @ ''.'' @ decimal d"

section \<open>The session registry, the group index and the event handlers\<close>

subsection \<open>Data\<close>

text \<open>
  \<^verbatim>\<open>interface DeviceInfo\<close>: the optional fields are \<open>None\<close> while absent. (The field
  \<^verbatim>\<open>id\<close> is \<open>id_dev\<close> here, \<open>id\<close> being the identity function of HOL.) Timestamps are
  \<^verbatim>\<open>Date.now()\<close> values, whole milliseconds.
\<close>

record DeviceInfo =
  id_dev :: string
  lastSeen :: int
  type :: "string option"
  icon :: "string option"
  name :: "string option"
  groupKey :: "string option"

text \<open>
  A JavaScript \<^verbatim>\<open>Map\<close> keeps its entries in insertion order: it is an association list.
  \<^verbatim>\<open>set\<close> on a present key replaces the value where it stands, on an absent key it
  appends; \<^verbatim>\<open>delete\<close> removes the entry. A \<^verbatim>\<open>Set\<close> of strings is the list of its
  elements in insertion order.
\<close>

type_synonym 'v js_map = "(string \<times> 'v) list"

type_synonym js_set = "string list"

definition Map_get :: "'v js_map \<Rightarrow> string \<Rightarrow> 'v option" where
  "Map_get m k = map_of m k"

definition Map_has :: "'v js_map \<Rightarrow> string \<Rightarrow> bool" where
  "Map_has m k = (map_of m k \<noteq> None)"

definition Map_set :: "'v js_map \<Rightarrow> string \<Rightarrow> 'v \<Rightarrow> 'v js_map" where
  "Map_set m k v = AList.update k v m"

definition Map_delete :: "'v js_map \<Rightarrow> string \<Rightarrow> 'v js_map" where
  "Map_delete m k = AList.delete k m"

definition Set_add :: "js_set \<Rightarrow> string \<Rightarrow> js_set" where
  "Set_add xs x = (if x \<in> set xs then xs else xs @ [x])"

definition Set_delete :: "js_set \<Rightarrow> string \<Rightarrow> js_set" where
  "Set_delete xs x = removeAll x xs"

text \<open>The two module-level maps \<^verbatim>\<open>devices\<close> and \<^verbatim>\<open>ipGroups\<close>.\<close>

record state =
  devices :: "DeviceInfo js_map"
  ipGroups :: "js_set js_map"

definition initial :: state where
  "initial = \<lparr>devices = [], ipGroups = []\<rparr>"

text \<open>A value of TypeScript's \<^verbatim>\<open>any\<close>, as far as it can travel in an event.\<close>

datatype json =
    JNull
  | JBool bool
  | JNum int
  | JStr string
  | JArr "json list"
  | JObj "(string \<times> json) list"

text \<open>
  What the server sends. \<^verbatim>\<open>socket.emit\<close> addresses the handler's own socket,
  \<^verbatim>\<open>io.to(r).emit\<close> the room \<open>r\<close>. The payload objects, one constructor per shape, fields
  in the order of the source; byte counts and offsets are whole numbers, a chunk is its
  bytes.
\<close>

datatype dest = ToSocket string | ToRoom string

datatype payload =
    DeviceInfoP string "DeviceInfo list"
  | IdP string
  | DeviceInfoUpdateP string string string string
  | MessageP string string
  | FileTransferRequestP string string int string
  | FileTransferResponseP string string bool
  | FileDataP string "8 word list" string string int int
  | CancelTransferP string string
  | SignalP string json
  | P2pFailedP string string

datatype emit = Emit dest string payload

text \<open>
  What the server receives. The first argument of a socket event is the \<^verbatim>\<open>socket.id\<close>
  of the socket whose handler runs; the others are the fields of \<^verbatim>\<open>data\<close> in the order
  of the handler's type annotation. \<open>Connection sid ip now\<close> is a new socket, \<open>ip\<close> the
  address the handler computes from the handshake (the first \<^verbatim>\<open>x-forwarded-for\<close> entry,
  or else the peer address) and \<open>now\<close> the clock it reads. \<open>Cleanup now\<close> is one firing
  of the interval timer.
\<close>

datatype event =
    Connection string string int
  | Heartbeat string int
  | DeviceInfoEv string string string string
  | SendMessage string string string
  | FileTransferRequest string string string int string
  | FileTransferResponse string string string bool
  | FileData string string "8 word list" string string int int
  | CancelTransfer string string string
  | Signal string string json
  | P2pFailed string string string
  | Disconnect string
  | Cleanup int

text \<open>
  Reading a method of \<^verbatim>\<open>undefined\<close> throws. The source asserts with \<^verbatim>\<open>!\<close> that a
  lookup in \<^verbatim>\<open>ipGroups\<close> succeeds; the assertion is erased at run time, so a failed
  lookup is this error.
\<close>

datatype error = TypeError

subsection \<open>Leaving a group\<close>

text \<open>
  The disconnect handler and the sweeper remove an id from its group with the same three
  statements: delete the id from the group's set if the group exists
  (\<^verbatim>\<open>ipGroups.get(g)?.delete(id)\<close>), delete the group if its set is now empty, and send
  \<^verbatim>\<open>device-left\<close> to every id still in the set, if the group still exists.
\<close>

definition leave_group :: "js_set js_map \<Rightarrow> string \<Rightarrow> string \<Rightarrow> js_set js_map \<times> emit list" where
  "leave_group groups g sid =
     (let groups1 = (case Map_get groups g of
                       None \<Rightarrow> groups
                     | Some members \<Rightarrow> Map_set groups g (Set_delete members sid));
          groups2 = (case Map_get groups1 g of
                       None \<Rightarrow> groups1
                     | Some members \<Rightarrow>
                         if length members = 0 then Map_delete groups1 g else groups1);
          notices = (case Map_get groups2 g of
                       None \<Rightarrow> []
                     | Some members \<Rightarrow>
                         map (\<lambda>i. Emit (ToRoom i) ''device-left'' (IdP sid)) members)
      in (groups2, notices))"

subsection \<open>cleanupDevices\<close>

text \<open>
  The loop runs over \<^verbatim>\<open>devices.entries()\<close> and deletes only the entry it is visiting,
  so it visits every entry present at the start once, in order, with the record it had
  at the start. One round of the loop body is \<open>cleanup_entry\<close>; \<^verbatim>\<open>if (device.groupKey)\<close>
  is false for an absent key and for the empty string.
\<close>

definition cleanup_entry :: "int \<Rightarrow> string \<times> DeviceInfo \<Rightarrow> state \<times> emit list \<Rightarrow> state \<times> emit list" where
  "cleanup_entry now entry acc =
     (case entry of (i, device) \<Rightarrow>
      case acc of (s, out) \<Rightarrow>
        if now - lastSeen device > 30000 then
          (case groupKey device of
             None \<Rightarrow> (s\<lparr>devices := Map_delete (devices s) i\<rparr>, out)
           | Some g \<Rightarrow>
               if g = [] then (s\<lparr>devices := Map_delete (devices s) i\<rparr>, out)
               else
                 (case leave_group (ipGroups s) g i of (groups', notices) \<Rightarrow>
                    (\<lparr>devices = Map_delete (devices s) i, ipGroups = groups'\<rparr>, out @ notices)))
        else (s, out))"

definition cleanupDevices :: "state \<Rightarrow> int \<Rightarrow> state \<times> emit list" where
  "cleanupDevices s now = fold (cleanup_entry now) (devices s) (s, [])"

subsection \<open>The connection handler and the handlers it installs\<close>

text \<open>The record the handler stores for a new socket: no profile yet.\<close>

definition new_device :: "string \<Rightarrow> int \<Rightarrow> string \<Rightarrow> DeviceInfo" where
  "new_device sid now g =
     \<lparr>id_dev = sid, lastSeen = now, type = None, icon = None, name = None, groupKey = Some g\<rparr>"

text \<open>
  The handler, statement by statement: drop a record already stored under the socket's
  id, classify the address, create the group if absent, add the id to the group's set,
  send the new socket the records of the other ids of the set (those that have a record),
  tell the other ids of the set, store the new record.
\<close>

definition on_connection :: "state \<Rightarrow> string \<Rightarrow> string \<Rightarrow> int \<Rightarrow> error + state \<times> emit list" where
  "on_connection s sid ip now =
     (let devices1 = (if Map_has (devices s) sid then Map_delete (devices s) sid else devices s);
          g = getNetworkGroup ip;
          groups1 = (if \<not> Map_has (ipGroups s) g then Map_set (ipGroups s) g [] else ipGroups s)
      in case Map_get groups1 g of
           None \<Rightarrow> Inl TypeError
         | Some members0 \<Rightarrow>
             (let members = Set_add members0 sid;
                  groups2 = Map_set groups1 g members;
                  others = filter (\<lambda>i. i \<noteq> sid) members;
                  roster = List.map_filter (Map_get devices1) others;
                  info = Emit (ToSocket sid) ''device-info'' (DeviceInfoP sid roster);
                  joined = map (\<lambda>i. Emit (ToRoom i) ''device-joined'' (IdP sid)) others;
                  devices2 = Map_set devices1 sid (new_device sid now g)
              in Inr (\<lparr>devices = devices2, ipGroups = groups2\<rparr>, info # joined)))"

definition on_heartbeat :: "state \<Rightarrow> string \<Rightarrow> int \<Rightarrow> state" where
  "on_heartbeat s sid now =
     (case Map_get (devices s) sid of
        None \<Rightarrow> s
      | Some device \<Rightarrow> s\<lparr>devices := Map_set (devices s) sid (device\<lparr>lastSeen := now\<rparr>)\<rparr>)"

definition on_device_info ::
  "state \<Rightarrow> string \<Rightarrow> string \<Rightarrow> string \<Rightarrow> string \<Rightarrow> error + state \<times> emit list" where
  "on_device_info s sid ty ic nm =
     (case Map_get (devices s) sid of
        None \<Rightarrow> Inr (s, [])
      | Some deviceInfo \<Rightarrow>
          (let d = deviceInfo\<lparr>type := Some ty, icon := Some ic, name := Some nm\<rparr>;
               d' = d\<lparr>groupKey := groupKey d\<rparr>;
               s' = s\<lparr>devices := Map_set (devices s) sid d'\<rparr>
           in case groupKey d' of
                None \<Rightarrow> Inr (s', [])
              | Some g \<Rightarrow>
                  if g = [] then Inr (s', [])
                  else (case Map_get (ipGroups s) g of
                          None \<Rightarrow> Inl TypeError
                        | Some members \<Rightarrow>
                            Inr (s', map (\<lambda>i. Emit (ToRoom i) ''device-info-update''
                                              (DeviceInfoUpdateP sid ty ic nm)) members))))"

text \<open>The seven relay handlers read neither map; each sends one event to one room.\<close>

definition on_send_message :: "string \<Rightarrow> string \<Rightarrow> string \<Rightarrow> emit list" where
  "on_send_message sid targetId message =
     [Emit (ToRoom targetId) ''message'' (MessageP sid message)]"

definition on_file_transfer_request ::
  "string \<Rightarrow> string \<Rightarrow> string \<Rightarrow> int \<Rightarrow> string \<Rightarrow> emit list" where
  "on_file_transfer_request sid targetId fileName fileSize transferId =
     [Emit (ToRoom targetId) ''file-transfer-request''
        (FileTransferRequestP sid fileName fileSize transferId)]"

definition on_file_transfer_response ::
  "string \<Rightarrow> string \<Rightarrow> string \<Rightarrow> bool \<Rightarrow> emit list" where
  "on_file_transfer_response sid targetId transferId accepted =
     [Emit (ToRoom targetId) ''file-transfer-response''
        (FileTransferResponseP sid transferId accepted)]"

definition on_file_data ::
  "string \<Rightarrow> string \<Rightarrow> 8 word list \<Rightarrow> string \<Rightarrow> string \<Rightarrow> int \<Rightarrow> int \<Rightarrow> emit list" where
  "on_file_data sid targetId chunk fileName transferId offset totalSize =
     [Emit (ToRoom targetId) ''file-data''
        (FileDataP sid chunk fileName transferId offset totalSize)]"

definition on_cancel_transfer :: "string \<Rightarrow> string \<Rightarrow> string \<Rightarrow> emit list" where
  "on_cancel_transfer sid targetId transferId =
     [Emit (ToRoom targetId) ''cancel-transfer'' (CancelTransferP sid transferId)]"

definition on_signal :: "string \<Rightarrow> string \<Rightarrow> json \<Rightarrow> emit list" where
  "on_signal sid targetId signal = [Emit (ToRoom targetId) ''signal'' (SignalP sid signal)]"

definition on_p2p_failed :: "string \<Rightarrow> string \<Rightarrow> string \<Rightarrow> emit list" where
  "on_p2p_failed sid targetId transferId =
     [Emit (ToRoom targetId) ''p2p-failed'' (P2pFailedP sid transferId)]"

definition on_disconnect :: "state \<Rightarrow> string \<Rightarrow> state \<times> emit list" where
  "on_disconnect s sid =
     (case (case Map_get (devices s) sid of
              None \<Rightarrow> (ipGroups s, [])
            | Some device \<Rightarrow>
                (case groupKey device of
                   None \<Rightarrow> (ipGroups s, [])
                 | Some g \<Rightarrow> if g = [] then (ipGroups s, []) else leave_group (ipGroups s) g sid))
      of (groups', notices) \<Rightarrow>
        (\<lparr>devices = Map_delete (devices s) sid, ipGroups = groups'\<rparr>, notices))"

subsection \<open>One event, run to completion\<close>

fun step :: "state \<Rightarrow> event \<Rightarrow> error + state \<times> emit list" where
  "step s (Connection sid ip now) = on_connection s sid ip now"
| "step s (Heartbeat sid now) = Inr (on_heartbeat s sid now, [])"
| "step s (DeviceInfoEv sid ty ic nm) = on_device_info s sid ty ic nm"
| "step s (SendMessage sid t m) = Inr (s, on_send_message sid t m)"
| "step s (FileTransferRequest sid t fn fs tid) = Inr (s, on_file_transfer_request sid t fn fs tid)"
| "step s (FileTransferResponse sid t tid acc) = Inr (s, on_file_transfer_response sid t tid acc)"
| "step s (FileData sid t ch fn tid off tot) = Inr (s, on_file_data sid t ch fn tid off tot)"
| "step s (CancelTransfer sid t tid) = Inr (s, on_cancel_transfer sid t tid)"
| "step s (Signal sid t sg) = Inr (s, on_signal sid t sg)"
| "step s (P2pFailed sid t tid) = Inr (s, on_p2p_failed sid t tid)"
| "step s (Disconnect sid) = Inr (on_disconnect s sid)"
| "step s (Cleanup now) = Inr (cleanupDevices s now)"

subsection \<open>The transport and the runs of the server\<close>

text \<open>
  The transport (Socket.IO) is not part of the module; the model keeps of it only the set
  of open sockets. A socket is in the room named by its own id from before its
  \<^verbatim>\<open>connection\<close> handler runs until it disconnects, and the module never joins, leaves
  or closes a socket itself. So an event sent to a room reaches the open socket of that
  id and nobody else, and an event sent to a room without an open socket reaches nobody.
\<close>

record world =
  server :: state
  sockets :: "string set"

definition world0 :: world where
  "world0 = \<lparr>server = initial, sockets = {}\<rparr>"

fun transport :: "string set \<Rightarrow> event \<Rightarrow> string set" where
  "transport socks (Connection sid ip now) = insert sid socks"
| "transport socks (Disconnect sid) = socks - {sid}"
| "transport socks ev = socks"

definition world_step :: "world \<Rightarrow> event \<Rightarrow> error + world \<times> emit list" where
  "world_step w ev =
     (case step (server w) ev of
        Inl e \<Rightarrow> Inl e
      | Inr (s', out) \<Rightarrow> Inr (\<lparr>server = s', sockets = transport (sockets w) ev\<rparr>, out))"

text \<open>Who receives an emitted event, as (receiving socket, event name, payload).\<close>

fun received :: "string set \<Rightarrow> emit \<Rightarrow> (string \<times> string \<times> payload) list" where
  "received socks (Emit (ToSocket sid) k p) = [(sid, k, p)]"
| "received socks (Emit (ToRoom r) k p) = (if r \<in> socks then [(r, k, p)] else [])"

definition deliveries :: "string set \<Rightarrow> emit list \<Rightarrow> (string \<times> string \<times> payload) list" where
  "deliveries socks out = concat (map (received socks) out)"

text \<open>A run handles the events one after the other; an uncaught error ends it.\<close>

fun run :: "world \<Rightarrow> event list \<Rightarrow> error + world" where
  "run w [] = Inr w"
| "run w (ev # evs) =
     (case world_step w ev of Inl e \<Rightarrow> Inl e | Inr (w', out) \<Rightarrow> run w' evs)"

inductive reachable :: "world \<Rightarrow> bool" where
  reachable_start: "reachable world0"
| reachable_next: "reachable w \<Longrightarrow> world_step w ev = Inr (w', out) \<Longrightarrow> reachable w'"

text \<open>
  The transport gives every socket an id of its own. A connection is \<open>orderly\<close> when its
  id has no record in \<^verbatim>\<open>devices\<close> and its address is not the empty string; every other
  event is orderly. The states reached through orderly events only are \<open>reachable_orderly\<close>.
\<close>

fun orderly :: "state \<Rightarrow> event \<Rightarrow> bool" where
  "orderly s (Connection sid ip now) = (\<not> Map_has (devices s) sid \<and> ip \<noteq> [])"
| "orderly s ev = True"

inductive reachable_orderly :: "world \<Rightarrow> bool" where
  orderly_start: "reachable_orderly world0"
| orderly_next:
    "reachable_orderly w \<Longrightarrow> orderly (server w) ev \<Longrightarrow> world_step w ev = Inr (w', out)
     \<Longrightarrow> reachable_orderly w'"

subsection \<open>Consistency of the registry and the group index\<close>

text \<open>
  The registry is \<^verbatim>\<open>devices\<close>, the group index is \<^verbatim>\<open>ipGroups\<close>. They are consistent
  when every registered id is in the set of exactly one group, the set of every group
  is the set of the ids whose record carries that group's key, and no set is empty.
\<close>

definition groups_of :: "state \<Rightarrow> string \<Rightarrow> string list" where
  "groups_of s i = map fst (filter (\<lambda>(g, members). i \<in> set members) (ipGroups s))"

definition ids_with_key :: "state \<Rightarrow> string \<Rightarrow> string list" where
  "ids_with_key s g = map fst (filter (\<lambda>(i, d). groupKey d = Some g) (devices s))"

definition consistent :: "state \<Rightarrow> bool" where
  "consistent s \<longleftrightarrow>
     list_all (\<lambda>(i, d). length (groups_of s i) = 1) (devices s) \<and>
     list_all (\<lambda>(g, members). set members = set (ids_with_key s g) \<and> members \<noteq> [])
       (ipGroups s)"

subsection \<open>Two facts about every state the server can be in\<close>

text \<open>
  \<open>grouped\<close>: every record carries a group key, and unless that key is the empty string
  the group exists and its set holds the record's id. \<open>connected\<close>: every id with a
  record has an open socket.
\<close>

definition grouped :: "state \<Rightarrow> bool" where
  "grouped s \<longleftrightarrow>
     (\<forall>i d. Map_get (devices s) i = Some d \<longrightarrow>
        (\<exists>g. groupKey d = Some g \<and>
             (g \<noteq> [] \<longrightarrow> (\<exists>members. Map_get (ipGroups s) g = Some members \<and> i \<in> set members))))"

definition connected :: "world \<Rightarrow> bool" where
  "connected w \<longleftrightarrow> (\<forall>i. Map_has (devices (server w)) i \<longrightarrow> i \<in> sockets w)"

text \<open>
  \<open>tidy\<close> is consistency as the handlers keep it, stated on lookups: the maps and sets
  have no repeated key or element (they are a \<^verbatim>\<open>Map\<close> and \<^verbatim>\<open>Set\<close>), every record is stored
  under its own id and carries a non-empty key of an existing group, and the set of
  every group is non-empty and holds exactly the ids whose record carries its key.
\<close>

definition tidy :: "state \<Rightarrow> bool" where
  "tidy s \<longleftrightarrow>
     distinct (map fst (devices s)) \<and>
     (\<forall>i d. Map_get (devices s) i = Some d \<longrightarrow>
        id_dev d = i \<and>
        (\<exists>g members. groupKey d = Some g \<and> g \<noteq> [] \<and> Map_get (ipGroups s) g = Some members)) \<and>
     distinct (map fst (ipGroups s)) \<and>
     (\<forall>g members. Map_get (ipGroups s) g = Some members \<longrightarrow>
        distinct members \<and> members \<noteq> [] \<and>
        set members = {i. \<exists>d. Map_get (devices s) i = Some d \<and> groupKey d = Some g})"

subsection \<open>Notions for the sweeper's properties\<close>

text \<open>The sweeper's test \<^verbatim>\<open>now - device.lastSeen > 30000\<close>.\<close>

definition expired :: "int \<Rightarrow> DeviceInfo \<Rightarrow> bool" where
  "expired now d = (now - lastSeen d > 30000)"

text \<open>The records listed in the \<^verbatim>\<open>device-info\<close> rosters among some emitted events.\<close>

fun rosters :: "emit list \<Rightarrow> DeviceInfo list" where
  "rosters [] = []"
| "rosters (Emit dst k (DeviceInfoP i ds) # out) = ds @ rosters out"
| "rosters (e # out) = rosters out"

text \<open>
  All roster records sent during a run, and whether every event of a run is orderly in
  the state it is handled in.
\<close>

fun later_rosters :: "world \<Rightarrow> event list \<Rightarrow> DeviceInfo list" where
  "later_rosters w [] = []"
| "later_rosters w (ev # evs) =
     (case world_step w ev of
        Inl e \<Rightarrow> []
      | Inr (w', out) \<Rightarrow> rosters out @ later_rosters w' evs)"

fun orderly_run :: "world \<Rightarrow> event list \<Rightarrow> bool" where
  "orderly_run w [] = True"
| "orderly_run w (ev # evs) =
     (orderly (server w) ev \<and>
      (case world_step w ev of Inl e \<Rightarrow> True | Inr (w', out) \<Rightarrow> orderly_run w' evs))"

text \<open>
  \<open>kept_alive gap i seen evs\<close>: in the events \<open>evs\<close>, every sweep comes at most \<open>gap\<close>
  milliseconds after the latest heartbeat of socket \<open>i\<close> before it (after \<open>seen\<close> when there
  is none), and socket \<open>i\<close> does not disconnect.
\<close>

fun kept_alive :: "int \<Rightarrow> string \<Rightarrow> int \<Rightarrow> event list \<Rightarrow> bool" where
  "kept_alive gap i seen [] = True"
| "kept_alive gap i seen (Heartbeat j t # evs) = kept_alive gap i (if j = i then t else seen) evs"
| "kept_alive gap i seen (Cleanup t # evs) = (t - seen \<le> gap \<and> kept_alive gap i seen evs)"
| "kept_alive gap i seen (Disconnect j # evs) = (j \<noteq> i \<and> kept_alive gap i seen evs)"
| "kept_alive gap i seen (ev # evs) = kept_alive gap i seen evs"

text \<open>Whether no event of a run is a connection under the id \<open>i\<close>.\<close>

fun no_connection_of :: "string \<Rightarrow> event list \<Rightarrow> bool" where
  "no_connection_of i [] = True"
| "no_connection_of i (Connection j ip t # evs) = (j \<noteq> i \<and> no_connection_of i evs)"
| "no_connection_of i (ev # evs) = no_connection_of i evs"

subsection \<open>What an event makes the sockets receive\<close>

text \<open>
  The deliveries of an event: what the handler emitted, as the transport hands it to the
  sockets open after the event (nothing when the handler throws).
\<close>

definition delivered :: "world \<Rightarrow> event \<Rightarrow> (string \<times> string \<times> payload) list" where
  "delivered w ev =
     (case world_step w ev of
        Inl e \<Rightarrow> []
      | Inr (w', out) \<Rightarrow> deliveries (sockets w') out)"

text \<open>
  \<open>relays w ev t k p\<close>: handling \<open>ev\<close> in \<open>w\<close> returns normally, changes nothing, and
  emits the single event \<open>k\<close> with payload \<open>p\<close> to the room \<open>t\<close>, which the socket \<open>t\<close>
  receives if it is open and nobody receives otherwise.
\<close>

definition relays :: "world \<Rightarrow> event \<Rightarrow> string \<Rightarrow> string \<Rightarrow> payload \<Rightarrow> bool" where
  "relays w ev t k p \<longleftrightarrow>
     world_step w ev = Inr (w, [Emit (ToRoom t) k p]) \<and>
     delivered w ev = (if t \<in> sockets w then [(t, k, p)] else [])"

subsection \<open>The relay events\<close>

text \<open>The seven events whose handler forwards \<^verbatim>\<open>data\<close> to \<^verbatim>\<open>data.targetId\<close>.\<close>

fun is_relay :: "event \<Rightarrow> bool" where
  "is_relay (SendMessage sid t m) = True"
| "is_relay (FileTransferRequest sid t fn fs tid) = True"
| "is_relay (FileTransferResponse sid t tid acc) = True"
| "is_relay (FileData sid t ch fn tid off tot) = True"
| "is_relay (CancelTransfer sid t tid) = True"
| "is_relay (Signal sid t sg) = True"
| "is_relay (P2pFailed sid t tid) = True"
| "is_relay ev = False"

subsection \<open>Example runs\<close>

text \<open>
  Two sockets \<open>a\<close> and \<open>b\<close> connect from the 10.0.0.0/8 block at time 0 and \<open>a\<close> sends a
  heartbeat after 25 seconds (\<open>lan_trace\<close>, ending in \<open>lan_world\<close>); the sweeper then runs
  at 40 seconds and evicts \<open>b\<close>, whose socket stays open (\<open>swept_world\<close>).
\<close>

definition lan_trace :: "event list" where
  "lan_trace =
     [Connection ''a'' ''10.0.0.1'' 0, Connection ''b'' ''10.0.0.2'' 0, Heartbeat ''a'' 25000]"

definition lan_world :: world where
  "lan_world =
     \<lparr>server =
        \<lparr>devices = [(''a'', new_device ''a'' 25000 ''LAN-10''), (''b'', new_device ''b'' 0 ''LAN-10'')],
         ipGroups = [(''LAN-10'', [''a'', ''b''])]\<rparr>,
      sockets = {''a'', ''b''}\<rparr>"

definition swept_world :: world where
  "swept_world =
     \<lparr>server =
        \<lparr>devices = [(''a'', new_device ''a'' 25000 ''LAN-10'')],
         ipGroups = [(''LAN-10'', [''a''])]\<rparr>,
      sockets = {''a'', ''b''}\<rparr>"

text \<open>
  A socket id is used twice: \<open>s\<close> and \<open>t\<close> connect from the 10.0.0.0/8 block, then a socket
  with the id \<open>s\<close> connects from 8.8.8.8 while the first record of \<open>s\<close> is still stored
  (\<open>stale_trace\<close>, ending in \<open>stale_world\<close>).
\<close>

definition stale_trace :: "event list" where
  "stale_trace =
     [Connection ''s'' ''10.0.0.1'' 0, Connection ''t'' ''10.0.0.2'' 0,
      Connection ''s'' ''8.8.8.8'' 5]"

definition stale_world :: world where
  "stale_world =
     \<lparr>server =
        \<lparr>devices = [(''t'', new_device ''t'' 0 ''LAN-10''), (''s'', new_device ''s'' 5 ''8.8.8'')],
         ipGroups = [(''LAN-10'', [''s'', ''t'']), (''8.8.8'', [''s''])]\<rparr>,
      sockets = {''s'', ''t''}\<rparr>"

text \<open>
  After \<open>lan_trace\<close> a third socket \<open>c\<close> connects from the same block at 41 seconds
  (\<open>trio_world\<close>).
\<close>

definition trio_world :: world where
  "trio_world =
     \<lparr>server =
        \<lparr>devices = [(''a'', new_device ''a'' 25000 ''LAN-10''), (''b'', new_device ''b'' 0 ''LAN-10''),
                    (''c'', new_device ''c'' 41000 ''LAN-10'')],
         ipGroups = [(''LAN-10'', [''a'', ''b'', ''c''])]\<rparr>,
      sockets = {''a'', ''b'', ''c''}\<rparr>"

text \<open>
  One socket \<open>a\<close> connects with the empty string as its address: the classifier returns
  the empty string, which \<^verbatim>\<open>if (groupKey)\<close> takes for an absent key (\<open>blank_world\<close>).
\<close>

definition blank_world :: world where
  "blank_world =
     \<lparr>server = \<lparr>devices = [(''a'', new_device ''a'' 0 [])], ipGroups = [([], [''a''])]\<rparr>,
      sockets = {''a''}\<rparr>"

text \<open>
  After \<open>stale_trace\<close> the sweeper runs at 40 seconds, both records being expired
  (\<open>stale_swept_world\<close>).
\<close>

definition stale_swept_world :: world where
  "stale_swept_world =
     \<lparr>server = \<lparr>devices = [], ipGroups = [(''LAN-10'', [''s''])]\<rparr>,
      sockets = {''s'', ''t''}\<rparr>"

text \<open>The number of dots of an address string, to speak about its components.\<close>

definition count_dots :: "string \<Rightarrow> nat" where
  "count_dots ip = length (filter (\<lambda>x. x = CHR ''.'') ip)"

section \<open>Properties of the classifier\<close>

lemma split_on_nonempty: "split_on c s \<noteq> []"
  by (induction s) (auto split: list.splits)

lemma split_on_piece:
  "c \<notin> set p \<Longrightarrow> split_on c (p @ c # rest) = p # split_on c rest"
  by (induction p) auto

lemma split_on_no_sep: "c \<notin> set s \<Longrightarrow> split_on c s = [s]"
  by (induction s) auto

lemma join_split_on: "join [c] (split_on c s) = s"
proof (induction s)
  case Nil
  show ?case by simp
next
  case (Cons x xs)
  obtain p ps where sp: "split_on c xs = p # ps"
    using split_on_nonempty [of c xs] by (cases "split_on c xs") auto
  show ?case
  proof (cases "x = c")
    case True
    with Cons sp show ?thesis by simp
  next
    case False
    with Cons sp show ?thesis by (cases ps) auto
  qed
qed

lemma length_split_on:
  "length (split_on c s) = Suc (length (filter (\<lambda>x. x = c) s))"
  by (induction s) (auto split: list.splits simp: split_on_nonempty)

lemma at_split_on_0:
  "c \<notin> set p \<Longrightarrow> at (split_on c (p @ c # rest)) 0 = Some p"
  by (simp add: split_on_piece at_def)

lemma startsWith_append: "startsWith p s \<longleftrightarrow> (\<exists>r. s = p @ r)"
  unfolding startsWith_def
  by (metis append_eq_conv_conj)

lemma group_10: "startsWith ''10.'' ip \<Longrightarrow> getNetworkGroup ip = ''LAN-10''"
proof -
  assume a: "startsWith ''10.'' ip"
  then obtain r where ip: "ip = ''10'' @ CHR ''.'' # r"
    by (auto simp: startsWith_append)
  have "at (split_on CHR ''.'' ip) 0 = Some ''10''"
    unfolding ip by (rule at_split_on_0) simp
  with a show ?thesis by (simp add: getNetworkGroup_def isPrivateIP_def Let_def)
qed

lemma group_192: "startsWith ''192.168.'' ip \<Longrightarrow> getNetworkGroup ip = ''LAN-192.168''"
proof -
  assume a: "startsWith ''192.168.'' ip"
  then obtain r where ip: "ip = ''192'' @ CHR ''.'' # (''168'' @ CHR ''.'' # r)"
    by (auto simp: startsWith_append)
  have sp: "split_on CHR ''.'' ip = ''192'' # ''168'' # split_on CHR ''.'' r"
    unfolding ip by simp
  have "at (split_on CHR ''.'' ip) 0 = Some ''192''" "at (split_on CHR ''.'' ip) 1 = Some ''168''"
    by (simp_all add: sp at_def)
  with a show ?thesis by (simp add: getNetworkGroup_def isPrivateIP_def Let_def)
qed

lemma group_172: "matches_172 ip \<Longrightarrow> getNetworkGroup ip = ''LAN-172''"
proof -
  assume a: "matches_172 ip"
  then obtain r where ip: "ip = ''172'' @ CHR ''.'' # r"
    by (auto simp: matches_172_def startsWith_append)
  have "at (split_on CHR ''.'' ip) 0 = Some ''172''"
    unfolding ip by (rule at_split_on_0) simp
  with a show ?thesis by (simp add: getNetworkGroup_def isPrivateIP_def Let_def)
qed

lemma group_public:
  "\<not> isPrivateIP ip \<Longrightarrow> getNetworkGroup ip = join ''.'' (take 3 (split_on CHR ''.'' ip))"
  by (simp add: getNetworkGroup_def Let_def)

lemma getNetworkGroup_cases:
  "getNetworkGroup ip =
     (if startsWith ''10.'' ip then ''LAN-10''
      else if startsWith ''192.168.'' ip then ''LAN-192.168''
      else if matches_172 ip then ''LAN-172''
      else join ''.'' (take 3 (split_on CHR ''.'' ip)))"
  using group_10 group_192 group_172 group_public
  by (auto simp: isPrivateIP_def)

lemma group_few_dots:
  assumes "\<not> isPrivateIP ip" and "count_dots ip < 3"
  shows "getNetworkGroup ip = ip"
proof -
  have "length (split_on CHR ''.'' ip) \<le> 3"
    using assms(2) by (simp add: length_split_on count_dots_def)
  then have "take 3 (split_on CHR ''.'' ip) = split_on CHR ''.'' ip"
    by simp
  then show ?thesis
    using assms(1) join_split_on [of "CHR ''.''" ip] by (simp add: group_public)
qed

lemma group_nonempty: "ip \<noteq> [] \<Longrightarrow> getNetworkGroup ip \<noteq> []"
proof (cases "isPrivateIP ip")
  case True
  then show ?thesis
    using group_10 [of ip] group_192 [of ip] group_172 [of ip]
    by (auto simp: isPrivateIP_def)
next
  case False
  assume ne: "ip \<noteq> []"
  show ?thesis
  proof (cases "count_dots ip < 3")
    case True
    with False ne show ?thesis by (simp add: group_few_dots)
  next
    case False
    then have "4 \<le> length (split_on CHR ''.'' ip)"
      by (simp add: length_split_on count_dots_def)
    then obtain p q r rest where "split_on CHR ''.'' ip = p # q # r # rest"
      by (auto simp: numeral_eq_Suc Suc_le_length_iff)
    with \<open>\<not> isPrivateIP ip\<close> show ?thesis by (simp add: group_public)
  qed
qed

lemma group_of_empty: "getNetworkGroup [] = []"
  by (simp add: getNetworkGroup_cases startsWith_def matches_172_def split_on.simps join.simps)

lemma group_empty_iff: "getNetworkGroup ip = [] \<longleftrightarrow> ip = []"
  using group_nonempty [of ip] group_of_empty by auto

subsection \<open>The classifier on dotted-decimal addresses\<close>

lemma lt10:
  "(k::nat) < 10 \<Longrightarrow> k = 0 \<or> k = 1 \<or> k = 2 \<or> k = 3 \<or> k = 4 \<or> k = 5 \<or> k = 6 \<or> k = 7 \<or> k = 8 \<or> k = 9"
  by arith

lemma digit_code: "of_char (digit n) = (48 + n mod 10 :: nat)"
proof -
  have "n mod 10 < 10" by simp
  from lt10 [OF this] show ?thesis
    by (elim disjE) (simp_all add: digit_def)
qed

lemma digit_not_dot: "digit n \<noteq> CHR ''.''"
proof
  assume "digit n = CHR ''.''"
  then have "(of_char (digit n) :: nat) = of_char CHR ''.''" by simp
  then show False by (simp add: digit_code)
qed

lemma decimal_no_dot: "CHR ''.'' \<notin> set (decimal n)"
proof -
  have "CHR ''.'' \<noteq> digit k" for k using digit_not_dot [of k] by auto
  then show ?thesis by (simp add: decimal_def)
qed

lemma digit_inj: "x < 10 \<Longrightarrow> y < 10 \<Longrightarrow> digit x = digit y \<Longrightarrow> x = y"
proof -
  assume xy: "x < 10" "y < 10" and "digit x = digit y"
  then have "(of_char (digit x) :: nat) = of_char (digit y)" by simp
  with xy show "x = y" by (simp add: digit_code)
qed

lemma digit_values:
  "digit 0 = CHR ''0''" "digit 1 = CHR ''1''" "digit 2 = CHR ''2''" "digit 3 = CHR ''3''"
  "digit 4 = CHR ''4''" "digit 5 = CHR ''5''" "digit 6 = CHR ''6''" "digit 7 = CHR ''7''"
  "digit 8 = CHR ''8''" "digit 9 = CHR ''9''"
  by (simp_all add: digit_def)

lemma div10_eq:
  "(a::nat) div 10 = b div 10 \<Longrightarrow> a mod 10 = b mod 10 \<Longrightarrow> a = b"
  by (metis div_mult_mod_eq)

lemma div100_eq:
  assumes "(a::nat) div 100 = b div 100" and "a div 10 mod 10 = b div 10 mod 10"
    and "a mod 10 = b mod 10"
  shows "a = b"
proof -
  have "a div 10 div 10 = a div 100" "b div 10 div 10 = b div 100"
    by (simp_all add: div_mult2_eq [symmetric])
  with assms(1) have "a div 10 div 10 = b div 10 div 10" by simp
  then have "a div 10 = b div 10" using assms(2) by (rule div10_eq)
  then show ?thesis using assms(3) by (rule div10_eq)
qed

lemma decimal_inj:
  assumes "a < 1000" and "b < 1000" and "decimal a = decimal b"
  shows "a = b"
proof -
  have len: "length (decimal n) = (if n < 10 then 1 else if n < 100 then 2 else 3)" for n
    by (simp add: decimal_def)
  from assms(3) have l: "length (decimal a) = length (decimal b)" by simp
  have ranges: "(a < 10 \<and> b < 10) \<or> (10 \<le> a \<and> a < 100 \<and> 10 \<le> b \<and> b < 100) \<or> (100 \<le> a \<and> 100 \<le> b)"
    using l unfolding len by (simp split: if_splits)
  have m10: "n mod 10 < 10" for n :: nat by simp
  from ranges consider (one) "a < 10" "b < 10" | (two) "10 \<le> a" "a < 100" "10 \<le> b" "b < 100"
    | (three) "100 \<le> a" "100 \<le> b"
    by blast
  then show ?thesis
  proof cases
    case one
    with assms(3) have "digit a = digit b" by (simp add: decimal_def)
    with one show ?thesis by (rule digit_inj)
  next
    case two
    with assms(3) have e: "digit (a div 10) = digit (b div 10)" "digit (a mod 10) = digit (b mod 10)"
      by (simp_all add: decimal_def)
    from two(2) have a: "a div 10 < 10" by simp
    from two(4) have b: "b div 10 < 10" by simp
    from digit_inj [OF a b e(1)] digit_inj [OF m10 m10 e(2)] show ?thesis by (rule div10_eq)
  next
    case three
    with assms(3) have e: "digit (a div 100) = digit (b div 100)"
      "digit (a div 10 mod 10) = digit (b div 10 mod 10)" "digit (a mod 10) = digit (b mod 10)"
      by (simp_all add: decimal_def)
    from assms(1) have a: "a div 100 < 10" by simp
    from assms(2) have b: "b div 100 < 10" by simp
    from digit_inj [OF a b e(1)] digit_inj [OF m10 m10 e(2)] digit_inj [OF m10 m10 e(3)]
    show ?thesis by (rule div100_eq)
  qed
qed

lemma split_dotted:
  "split_on CHR ''.'' (dotted a b c d) = [decimal a, decimal b, decimal c, decimal d]"
proof -
  have "split_on CHR ''.'' (decimal d) = [decimal d]"
    using decimal_no_dot by (rule split_on_no_sep)
  then have "split_on CHR ''.'' (decimal c @ CHR ''.'' # decimal d) = [decimal c, decimal d]"
    using split_on_piece [OF decimal_no_dot, of c "decimal d"] by simp
  then have "split_on CHR ''.'' (decimal b @ CHR ''.'' # decimal c @ CHR ''.'' # decimal d) =
      [decimal b, decimal c, decimal d]"
    using split_on_piece [OF decimal_no_dot, of b "decimal c @ CHR ''.'' # decimal d"] by simp
  then have "split_on CHR ''.''
      (decimal a @ CHR ''.'' # decimal b @ CHR ''.'' # decimal c @ CHR ''.'' # decimal d) =
      [decimal a, decimal b, decimal c, decimal d]"
    using split_on_piece [OF decimal_no_dot, of a
        "decimal b @ CHR ''.'' # decimal c @ CHR ''.'' # decimal d"] by simp
  then show ?thesis by (simp add: dotted_def)
qed

lemma startsWith_Nil: "startsWith [] s"
  by (simp add: startsWith_def)

lemma startsWith_Cons: "startsWith (a # p) s \<longleftrightarrow> (\<exists>r. s = a # r \<and> startsWith p r)"
  by (cases s) (auto simp: startsWith_def)

lemma startsWith_piece:
  assumes "c \<notin> set q" and "c \<notin> set x"
  shows "startsWith (q @ c # p) (x @ c # s) \<longleftrightarrow> x = q \<and> startsWith p s"
  using assms
proof (induction q arbitrary: x)
  case Nil
  then show ?case by (cases x) (auto simp: startsWith_Cons)
next
  case (Cons a q)
  show ?case
  proof (cases x)
    case Nil
    with Cons.prems show ?thesis by (auto simp: startsWith_Cons)
  next
    case (Cons y ys)
    with Cons.prems Cons.IH [of ys] show ?thesis by (auto simp: startsWith_Cons)
  qed
qed

lemma decimal_values:
  "decimal 10 = ''10''" "decimal 192 = ''192''" "decimal 168 = ''168''" "decimal 172 = ''172''"
  by (simp_all add: decimal_def digit_def)

lemma decimal_is:
  assumes "a < 256"
  shows "decimal a = ''10'' \<longleftrightarrow> a = 10" "decimal a = ''192'' \<longleftrightarrow> a = 192"
    "decimal a = ''168'' \<longleftrightarrow> a = 168" "decimal a = ''172'' \<longleftrightarrow> a = 172"
proof -
  have inj: "decimal a = decimal n \<longleftrightarrow> a = n" if "n < 1000" for n
    using decimal_inj [of a n] assms that by auto
  show "decimal a = ''10'' \<longleftrightarrow> a = 10" using inj [of 10] by (simp add: decimal_values)
  show "decimal a = ''192'' \<longleftrightarrow> a = 192" using inj [of 192] by (simp add: decimal_values)
  show "decimal a = ''168'' \<longleftrightarrow> a = 168" using inj [of 168] by (simp add: decimal_values)
  show "decimal a = ''172'' \<longleftrightarrow> a = 172" using inj [of 172] by (simp add: decimal_values)
qed

lemma starts_10_dotted:
  "a < 256 \<Longrightarrow> startsWith ''10.'' (dotted a b c d) \<longleftrightarrow> a = 10"
proof -
  assume a: "a < 256"
  have "startsWith (''10'' @ CHR ''.'' # []) (decimal a @ CHR ''.'' # (decimal b @ ''.'' @ decimal c @ ''.'' @ decimal d))
      \<longleftrightarrow> decimal a = ''10'' \<and> startsWith [] (decimal b @ ''.'' @ decimal c @ ''.'' @ decimal d)"
    by (rule startsWith_piece) (simp_all add: decimal_no_dot)
  then show ?thesis
    using decimal_is(1) [OF a] by (simp add: dotted_def startsWith_Nil)
qed

lemma starts_192_dotted:
  "a < 256 \<Longrightarrow> b < 256 \<Longrightarrow> startsWith ''192.168.'' (dotted a b c d) \<longleftrightarrow> a = 192 \<and> b = 168"
proof -
  assume a: "a < 256" and b: "b < 256"
  have 1: "startsWith (''192'' @ CHR ''.'' # ''168.'') (decimal a @ CHR ''.'' # (decimal b @ ''.'' @ decimal c @ ''.'' @ decimal d))
      \<longleftrightarrow> decimal a = ''192'' \<and> startsWith ''168.'' (decimal b @ ''.'' @ decimal c @ ''.'' @ decimal d)"
    by (rule startsWith_piece) (simp_all add: decimal_no_dot)
  have 2: "startsWith (''168'' @ CHR ''.'' # []) (decimal b @ CHR ''.'' # (decimal c @ ''.'' @ decimal d))
      \<longleftrightarrow> decimal b = ''168'' \<and> startsWith [] (decimal c @ ''.'' @ decimal d)"
    by (rule startsWith_piece) (simp_all add: decimal_no_dot)
  from 1 2 show ?thesis
    using decimal_is(2) [OF a] decimal_is(3) [OF b] by (simp add: dotted_def startsWith_Nil)
qed

lemma digit_eq: "n < 10 \<Longrightarrow> digit n = c \<longleftrightarrow> (of_char c :: nat) = 48 + n"
proof
  assume "n < 10" "digit n = c"
  then show "(of_char c :: nat) = 48 + n" using digit_code [of n] by simp
next
  assume n: "n < 10" and c: "(of_char c :: nat) = 48 + n"
  have "(of_char (digit n) :: nat) = of_char c" using n c by (simp add: digit_code)
  then show "digit n = c" by simp
qed

lemma range_16_31:
  "(p::nat) < 10 \<Longrightarrow> q < 10 \<Longrightarrow>
   (p = 1 \<and> (q = 6 \<or> q = 7 \<or> q = 8 \<or> q = 9) \<or> p = 2 \<or> p = 3 \<and> (q = 0 \<or> q = 1)) \<longleftrightarrow>
   16 \<le> 10 * p + q \<and> 10 * p + q \<le> 31"
  by arith

lemma range_16_31_div:
  assumes "(b::nat) < 100"
  shows "(b div 10 = 1 \<and> (b mod 10 = 6 \<or> b mod 10 = 7 \<or> b mod 10 = 8 \<or> b mod 10 = 9) \<or>
          b div 10 = 2 \<or> b div 10 = 3 \<and> (b mod 10 = 0 \<or> b mod 10 = 1)) \<longleftrightarrow>
         16 \<le> b \<and> b \<le> 31"
proof -
  have "b div 10 < 10" using assms by simp
  moreover have "b mod 10 < 10" by simp
  ultimately show ?thesis
    using range_16_31 [of "b div 10" "b mod 10"] by (simp only: mult_div_mod_eq)
qed

lemma second_octet_172:
  assumes "b < 256"
  shows "(case decimal b @ CHR ''.'' # rest of
            x # y # z # u \<Rightarrow>
              (x = CHR ''1'' \<and> y \<in> set ''6789'' \<or>
               x = CHR ''2'' \<and> y \<in> set ''0123456789'' \<or>
               x = CHR ''3'' \<and> y \<in> set ''01'') \<and> z = CHR ''.''
          | _ \<Rightarrow> False) \<longleftrightarrow> 16 \<le> b \<and> b \<le> 31"
proof -
  consider (one) "b < 10" | (two) "10 \<le> b" "b < 100" | (three) "100 \<le> b"
    by linarith
  then show ?thesis
  proof cases
    case one
    then show ?thesis by (cases rest) (simp_all add: decimal_def)
  next
    case two
    let ?p = "b div 10" and ?q = "b mod 10"
    have p: "?p < 10" using two(2) by simp
    have q: "?q < 10" by simp
    have "(digit ?p = CHR ''1'' \<and> digit ?q \<in> set ''6789'' \<or>
           digit ?p = CHR ''2'' \<and> digit ?q \<in> set ''0123456789'' \<or>
           digit ?p = CHR ''3'' \<and> digit ?q \<in> set ''01'') \<longleftrightarrow>
          (?p = 1 \<and> (?q = 6 \<or> ?q = 7 \<or> ?q = 8 \<or> ?q = 9) \<or> ?p = 2 \<or>
           ?p = 3 \<and> (?q = 0 \<or> ?q = 1))"
      using lt10 [OF q] by (simp add: digit_eq [OF p] digit_eq [OF q])
    also have "\<dots> \<longleftrightarrow> 16 \<le> b \<and> b \<le> 31"
      using two(2) by (rule range_16_31_div)
    finally have "(digit ?p = CHR ''1'' \<and> digit ?q \<in> set ''6789'' \<or>
           digit ?p = CHR ''2'' \<and> digit ?q \<in> set ''0123456789'' \<or>
           digit ?p = CHR ''3'' \<and> digit ?q \<in> set ''01'') \<longleftrightarrow> 16 \<le> b \<and> b \<le> 31" .
    moreover have "decimal b = [digit ?p, digit ?q]"
      using two by (simp add: decimal_def)
    ultimately show ?thesis by simp
  next
    case three
    with assms show ?thesis by (simp add: decimal_def digit_not_dot)
  qed
qed

lemma matches_172_dotted:
  assumes "a < 256" and "b < 256"
  shows "matches_172 (dotted a b c d) \<longleftrightarrow> a = 172 \<and> 16 \<le> b \<and> b \<le> 31"
proof -
  let ?rest = "decimal c @ ''.'' @ decimal d"
  have st: "startsWith ''172.'' (dotted a b c d) \<longleftrightarrow> a = 172"
  proof -
    have "startsWith (''172'' @ CHR ''.'' # []) (decimal a @ CHR ''.'' # (decimal b @ ''.'' @ ?rest))
        \<longleftrightarrow> decimal a = ''172'' \<and> startsWith [] (decimal b @ ''.'' @ ?rest)"
      by (rule startsWith_piece) (simp_all add: decimal_no_dot)
    then show ?thesis
      using decimal_is(4) [OF assms(1)] by (simp add: dotted_def startsWith_Nil)
  qed
  show ?thesis
  proof (cases "a = 172")
    case False
    with st show ?thesis by (simp add: matches_172_def)
  next
    case True
    then have "drop 4 (dotted a b c d) = decimal b @ CHR ''.'' # ?rest"
      by (simp add: dotted_def decimal_values)
    with st True second_octet_172 [OF assms(2), of ?rest] show ?thesis
      by (simp add: matches_172_def)
  qed
qed

lemma isPrivateIP_dotted:
  assumes "a < 256" and "b < 256"
  shows "isPrivateIP (dotted a b c d) \<longleftrightarrow>
           a = 10 \<or> (a = 192 \<and> b = 168) \<or> (a = 172 \<and> 16 \<le> b \<and> b \<le> 31)"
  using assms
  by (simp add: isPrivateIP_def starts_10_dotted starts_192_dotted matches_172_dotted)

lemma group_dotted:
  assumes "a < 256" and "b < 256"
  shows "getNetworkGroup (dotted a b c d) =
           (if a = 10 then ''LAN-10''
            else if a = 192 \<and> b = 168 then ''LAN-192.168''
            else if a = 172 \<and> 16 \<le> b \<and> b \<le> 31 then ''LAN-172''
            else decimal a @ ''.'' @ decimal b @ ''.'' @ decimal c)"
  using assms
  by (simp add: getNetworkGroup_cases starts_10_dotted starts_192_dotted matches_172_dotted
      split_dotted)

subsection \<open>The claims about the classifier\<close>

lemma startsWith_prefix: "startsWith p (p @ r)"
  by (simp add: startsWith_def)

lemma matches_172_octets:
  "o2 \<in> set [''16'', ''17'', ''18'', ''19'', ''20'', ''21'', ''22'', ''23'', ''24'', ''25'',
              ''26'', ''27'', ''28'', ''29'', ''30'', ''31''] \<Longrightarrow>
   matches_172 (''172.'' @ o2 @ ''.'' @ r)"
  by (auto simp: matches_172_def startsWith_def)

text \<open>
  Claim C7. On the dotted-decimal text of an IPv4 address the classifier returns
  \<open>LAN-10\<close> for every address of 10.0.0.0/8, \<open>LAN-192.168\<close> for every address of
  192.168.0.0/16, \<open>LAN-172\<close> for every address of 172.16.0.0/12, and for every other
  address its first three octets joined by dots. On arbitrary strings: whatever follows
  the prefix \<open>10.\<close>, \<open>192.168.\<close> or \<open>172.16.\<close> to \<open>172.31.\<close>, the tag is the block's; a
  string that \<^verbatim>\<open>isPrivateIP\<close> rejects gets its first three dot-separated components. So
  \<open>192.168.1.5\<close> and \<open>192.168.50.9\<close> share a key, \<open>10.0.0.1\<close> and \<open>10.255.255.254\<close> share
  a key, and \<open>8.8.8.8\<close> and \<open>8.8.4.4\<close> have the different keys \<open>8.8.8\<close> and \<open>8.8.4\<close>.
\<close>

theorem C7_blocks_share_a_tag:
  "(a < 256 \<and> b < 256 \<longrightarrow>
      getNetworkGroup (dotted a b c d) =
        (if a = 10 then ''LAN-10''
         else if a = 192 \<and> b = 168 then ''LAN-192.168''
         else if a = 172 \<and> 16 \<le> b \<and> b \<le> 31 then ''LAN-172''
         else decimal a @ ''.'' @ decimal b @ ''.'' @ decimal c)) \<and>
   getNetworkGroup (''10.'' @ r) = ''LAN-10'' \<and>
   getNetworkGroup (''192.168.'' @ r) = ''LAN-192.168'' \<and>
   (o2 \<in> set [''16'', ''17'', ''18'', ''19'', ''20'', ''21'', ''22'', ''23'', ''24'', ''25'',
               ''26'', ''27'', ''28'', ''29'', ''30'', ''31''] \<longrightarrow>
      getNetworkGroup (''172.'' @ o2 @ ''.'' @ r) = ''LAN-172'') \<and>
   (\<not> isPrivateIP ip \<longrightarrow> getNetworkGroup ip = join ''.'' (take 3 (split_on CHR ''.'' ip))) \<and>
   getNetworkGroup ''192.168.1.5'' = getNetworkGroup ''192.168.50.9'' \<and>
   getNetworkGroup ''10.0.0.1'' = getNetworkGroup ''10.255.255.254'' \<and>
   getNetworkGroup ''8.8.8.8'' = ''8.8.8'' \<and> getNetworkGroup ''8.8.4.4'' = ''8.8.4'' \<and>
   getNetworkGroup ''8.8.8.8'' \<noteq> getNetworkGroup ''8.8.4.4''"
proof -
  have q: "a < 256 \<and> b < 256 \<longrightarrow>
      getNetworkGroup (dotted a b c d) =
        (if a = 10 then ''LAN-10''
         else if a = 192 \<and> b = 168 then ''LAN-192.168''
         else if a = 172 \<and> 16 \<le> b \<and> b \<le> 31 then ''LAN-172''
         else decimal a @ ''.'' @ decimal b @ ''.'' @ decimal c)"
    using group_dotted [of a b c d] by blast
  have a: "getNetworkGroup (''10.'' @ r) = ''LAN-10''"
    by (rule group_10) (rule startsWith_prefix)
  have b: "getNetworkGroup (''192.168.'' @ r) = ''LAN-192.168''"
    by (rule group_192) (rule startsWith_prefix)
  have c: "o2 \<in> set [''16'', ''17'', ''18'', ''19'', ''20'', ''21'', ''22'', ''23'', ''24'', ''25'',
               ''26'', ''27'', ''28'', ''29'', ''30'', ''31''] \<longrightarrow>
      getNetworkGroup (''172.'' @ o2 @ ''.'' @ r) = ''LAN-172''"
    using matches_172_octets group_172 by blast
  have d: "\<not> isPrivateIP ip \<longrightarrow> getNetworkGroup ip = join ''.'' (take 3 (split_on CHR ''.'' ip))"
    by (simp add: group_public)
  have e: "getNetworkGroup ''192.168.1.5'' = getNetworkGroup ''192.168.50.9''"
    by (simp add: group_192 startsWith_def)
  have f: "getNetworkGroup ''10.0.0.1'' = getNetworkGroup ''10.255.255.254''"
    by (simp add: group_10 startsWith_def)
  have g: "getNetworkGroup ''8.8.8.8'' = ''8.8.8''" "getNetworkGroup ''8.8.4.4'' = ''8.8.4''"
    by (simp_all add: getNetworkGroup_cases startsWith_def matches_172_def)
  from q a b c d e f g show ?thesis by simp
qed

theorem C7_blocks_share_a_tag_witness:
  "dotted 172 20 1 1 = ''172.20.1.1'' \<and> getNetworkGroup ''172.20.1.1'' = ''LAN-172'' \<and>
   dotted 203 0 113 5 = ''203.0.113.5'' \<and> getNetworkGroup ''203.0.113.5'' = ''203.0.113'' \<and>
   getNetworkGroup ''172.31.255.254'' = ''LAN-172'' \<and> \<not> isPrivateIP ''172.32.0.1'' \<and>
   getNetworkGroup ''172.32.0.1'' = ''172.32.0''"
proof -
  have t: "dotted 172 20 1 1 = ''172.20.1.1''" "dotted 203 0 113 5 = ''203.0.113.5''"
    by (simp_all add: dotted_def decimal_def digit_def)
  have h0: "(172::nat) < 256 \<and> (20::nat) < 256" "(203::nat) < 256 \<and> (0::nat) < 256" by simp_all
  have h1: "''31'' \<in> set [''16'', ''17'', ''18'', ''19'', ''20'', ''21'', ''22'', ''23'', ''24'', ''25'',
               ''26'', ''27'', ''28'', ''29'', ''30'', ''31'']" by simp
  have h2: "\<not> isPrivateIP ''172.32.0.1''"
    by (simp add: isPrivateIP_def startsWith_def matches_172_def)
  from C7_blocks_share_a_tag [of 172 20 1 1] h0 t
  have c1: "getNetworkGroup ''172.20.1.1'' = ''LAN-172''" by simp
  from C7_blocks_share_a_tag [of 203 0 113 5] h0 t
  have c2: "getNetworkGroup ''203.0.113.5'' = ''203.0.113''"
    by (simp add: decimal_def digit_def)
  from C7_blocks_share_a_tag [of _ _ _ _ "''255.254''" "''31''" "''172.32.0.1''"] h1 h2
  have c3: "getNetworkGroup ''172.31.255.254'' = ''LAN-172''"
    and c4: "getNetworkGroup ''172.32.0.1'' = ''172.32.0''" by simp_all
  from t c1 c2 c3 c4 h2 show ?thesis by simp
qed

text \<open>
  Claim C8. The classifier returns a key for every string: the source calls only
  operations that are defined on all strings (a regular-expression test, \<^verbatim>\<open>split\<close>,
  an index read that may give \<^verbatim>\<open>undefined\<close>, \<^verbatim>\<open>===\<close>, \<^verbatim>\<open>slice\<close>, \<^verbatim>\<open>join\<close>), reads no
  state, and has no branch that throws. The key is one of the three tags when the string
  starts like a private address and the first three dot-separated pieces otherwise; the
  fall-through inside the private branch is never taken. Equal strings get equal keys.
\<close>

theorem C8_classifier_total:
  "getNetworkGroup ip =
     (if startsWith ''10.'' ip then ''LAN-10''
      else if startsWith ''192.168.'' ip then ''LAN-192.168''
      else if matches_172 ip then ''LAN-172''
      else join ''.'' (take 3 (split_on CHR ''.'' ip))) \<and>
   (ip = ip' \<longrightarrow> getNetworkGroup ip = getNetworkGroup ip')"
  by (simp add: getNetworkGroup_cases)

theorem C8_classifier_total_witness:
  "getNetworkGroup [] = [] \<and> getNetworkGroup ''not an address'' = ''not an address'' \<and>
   getNetworkGroup ''10.'' = ''LAN-10'' \<and> getNetworkGroup ''1..2..3'' = ''1..2'' \<and>
   getNetworkGroup ''256.300.1.900.7'' = ''256.300.1''"
  using C8_classifier_total [of "[]" "[]"] C8_classifier_total [of "''not an address''" "[]"]
    C8_classifier_total [of "''10.''" "[]"] C8_classifier_total [of "''1..2..3''" "[]"]
    C8_classifier_total [of "''256.300.1.900.7''" "[]"]
  by (simp add: startsWith_def matches_172_def)

lemma join_append:
  "xs \<noteq> [] \<Longrightarrow> ys \<noteq> [] \<Longrightarrow> join sep (xs @ ys) = join sep xs @ sep @ join sep ys"
proof (induction sep xs rule: join.induct)
  case (1 sep)
  then show ?case by simp
next
  case (2 sep p)
  then show ?case by (cases ys) simp_all
next
  case (3 sep p q ps)
  then show ?case by simp
qed

lemma group_many_dots:
  assumes "\<not> isPrivateIP ip" and "3 \<le> count_dots ip"
  shows "\<exists>rest. ip = getNetworkGroup ip @ ''.'' @ rest"
proof -
  let ?parts = "split_on CHR ''.'' ip"
  have len: "4 \<le> length ?parts"
    using assms(2) by (simp add: length_split_on count_dots_def)
  then have ne: "take 3 ?parts \<noteq> []" "drop 3 ?parts \<noteq> []"
    by auto
  have "ip = join ''.'' (take 3 ?parts @ drop 3 ?parts)"
    using join_split_on [of "CHR ''.''" ip] by simp
  also have "\<dots> = join ''.'' (take 3 ?parts) @ ''.'' @ join ''.'' (drop 3 ?parts)"
    using ne by (rule join_append)
  finally show ?thesis
    using assms(1) by (auto simp: group_public)
qed

text \<open>
  Claim C10, as amended. For a string that \<^verbatim>\<open>isPrivateIP\<close> rejects, with \<open>n\<close>
  dot-separated components (one more than its dots), the key is the first \<open>min 3 n\<close>
  components joined with dots. With fewer than three dots the string is its own key, and
  two such strings share a key only if they are equal. With three or more dots the key
  is a proper prefix of the string: what follows the third dot is dropped.
\<close>

theorem C10_public_key_is_three_components:
  "\<not> isPrivateIP ip \<longrightarrow>
     getNetworkGroup ip =
       join ''.'' (take (min 3 (length (split_on CHR ''.'' ip))) (split_on CHR ''.'' ip)) \<and>
     length (split_on CHR ''.'' ip) = count_dots ip + 1 \<and>
     (count_dots ip < 3 \<longrightarrow> getNetworkGroup ip = ip) \<and>
     (3 \<le> count_dots ip \<longrightarrow> (\<exists>rest. ip = getNetworkGroup ip @ ''.'' @ rest)) \<and>
     (count_dots ip < 3 \<and> \<not> isPrivateIP ip' \<and> count_dots ip' < 3 \<longrightarrow>
        (getNetworkGroup ip = getNetworkGroup ip' \<longleftrightarrow> ip = ip'))"
proof (intro impI conjI)
  assume np: "\<not> isPrivateIP ip"
  have "take (min 3 (length (split_on CHR ''.'' ip))) (split_on CHR ''.'' ip) =
      take 3 (split_on CHR ''.'' ip)"
    by (simp add: min_def)
  with np show "getNetworkGroup ip =
       join ''.'' (take (min 3 (length (split_on CHR ''.'' ip))) (split_on CHR ''.'' ip))"
    by (simp add: group_public)
  show "length (split_on CHR ''.'' ip) = count_dots ip + 1"
    by (simp add: length_split_on count_dots_def)
  show "getNetworkGroup ip = ip" if "count_dots ip < 3"
    using np that by (rule group_few_dots)
  show "\<exists>rest. ip = getNetworkGroup ip @ ''.'' @ rest" if "3 \<le> count_dots ip"
    using np that by (rule group_many_dots)
  show "getNetworkGroup ip = getNetworkGroup ip' \<longleftrightarrow> ip = ip'"
    if "count_dots ip < 3 \<and> \<not> isPrivateIP ip' \<and> count_dots ip' < 3"
    using np that by (simp add: group_few_dots)
qed

theorem C10_public_key_is_three_components_witness:
  "getNetworkGroup ''::1'' = ''::1'' \<and> getNetworkGroup ''localhost'' = ''localhost'' \<and>
   getNetworkGroup ''example.org'' = ''example.org'' \<and>
   getNetworkGroup ''fe80::1'' \<noteq> getNetworkGroup ''fe80::2''"
proof -
  have h: "\<not> isPrivateIP ''::1''" "\<not> isPrivateIP ''localhost''" "\<not> isPrivateIP ''example.org''"
    "\<not> isPrivateIP ''fe80::1''" "\<not> isPrivateIP ''fe80::2''"
    by (simp_all add: isPrivateIP_def startsWith_def matches_172_def)
  have d: "count_dots ''::1'' < 3" "count_dots ''localhost'' < 3" "count_dots ''example.org'' < 3"
    "count_dots ''fe80::1'' < 3" "count_dots ''fe80::2'' < 3"
    by (simp_all add: count_dots_def)
  from C10_public_key_is_three_components [of "''::1''"] h d
  have 1: "getNetworkGroup ''::1'' = ''::1''" by blast
  from C10_public_key_is_three_components [of "''localhost''"] h d
  have 2: "getNetworkGroup ''localhost'' = ''localhost''" by blast
  from C10_public_key_is_three_components [of "''example.org''"] h d
  have 3: "getNetworkGroup ''example.org'' = ''example.org''" by blast
  have ne: "''fe80::1'' \<noteq> ''fe80::2''" by simp
  from C10_public_key_is_three_components [of "''fe80::1''" "''fe80::2''"] h d ne
  have 4: "getNetworkGroup ''fe80::1'' \<noteq> getNetworkGroup ''fe80::2''" by blast
  from 1 2 3 4 show ?thesis by simp
qed

text \<open>
  Claim C10 as stated counts every IPv6 address among the strings with fewer than three
  dots. The IPv4-mapped IPv6 address of 8.8.8.8 has three: its key is not the address,
  and it shares the key with the different address of 8.8.8.9.
\<close>

theorem C10_mapped_address_counterexample:
  "\<not> isPrivateIP ''::ffff:8.8.8.8'' \<and> count_dots ''::ffff:8.8.8.8'' = 3 \<and>
   getNetworkGroup ''::ffff:8.8.8.8'' = ''::ffff:8.8.8'' \<and>
   getNetworkGroup ''::ffff:8.8.8.8'' = getNetworkGroup ''::ffff:8.8.8.9'' \<and>
   ''::ffff:8.8.8.8'' \<noteq> ''::ffff:8.8.8.9''"
  by (simp add: getNetworkGroup_cases isPrivateIP_def startsWith_def matches_172_def count_dots_def)

section \<open>Properties of the server\<close>

lemmas Map_defs = Map_get_def Map_has_def Map_set_def Map_delete_def

lemmas handler_defs =
  on_connection_def on_heartbeat_def on_device_info_def on_disconnect_def cleanupDevices_def
  cleanup_entry_def leave_group_def new_device_def Set_add_def Set_delete_def
  on_send_message_def on_file_transfer_request_def on_file_transfer_response_def
  on_file_data_def on_cancel_transfer_def on_signal_def on_p2p_failed_def
  world_step_def world0_def initial_def deliveries_def

subsection \<open>The example runs\<close>

lemma group_of_examples:
  "getNetworkGroup ''10.0.0.1'' = ''LAN-10''"
  "getNetworkGroup ''10.0.0.2'' = ''LAN-10''"
  "getNetworkGroup ''10.0.0.3'' = ''LAN-10''"
  by (simp_all add: group_10 startsWith_def)

lemma run_lan_trace: "run world0 lan_trace = Inr lan_world"
  by (simp add: lan_trace_def lan_world_def handler_defs Map_defs group_of_examples
      List.map_filter_simps Let_def insert_commute)

lemma sweep_lan_server:
  "cleanupDevices (server lan_world) 40000 =
     (server swept_world, [Emit (ToRoom ''a'') ''device-left'' (IdP ''b'')])"
  by (simp add: lan_world_def swept_world_def handler_defs Map_defs Let_def)

lemma sweep_lan_world:
  "world_step lan_world (Cleanup 40000) =
     Inr (swept_world, [Emit (ToRoom ''a'') ''device-left'' (IdP ''b'')])"
  by (simp add: world_step_def sweep_lan_server) (simp add: lan_world_def swept_world_def)

subsection \<open>What the sweeper does to the registry\<close>

lemma Map_delete_absent: "\<not> Map_has m k \<Longrightarrow> Map_delete m k = m"
  by (simp add: Map_defs AList.delete_id map_of_eq_None_iff)

lemma Map_has_delete: "\<not> Map_has (Map_delete m k) k"
  by (simp add: Map_defs AList.delete_conv')

lemma devices_cleanup_entry:
  "devices (fst (cleanup_entry now (i, d) (s, out))) =
     (if now - lastSeen d > 30000 then Map_delete (devices s) i else devices s)"
  by (simp add: cleanup_entry_def split: option.split prod.split)

lemma devices_cleanup_fold:
  "devices (fst (fold (cleanup_entry now) es (s, out))) =
     filter (\<lambda>(k, v). \<not> (\<exists>d. (k, d) \<in> set es \<and> now - lastSeen d > 30000)) (devices s)"
proof (induction es arbitrary: s out)
  case Nil
  show ?case by simp
next
  case (Cons e es)
  obtain i d where e: "e = (i, d)" by (cases e)
  obtain s1 out1 where st: "cleanup_entry now (i, d) (s, out) = (s1, out1)"
    by (cases "cleanup_entry now (i, d) (s, out)")
  have d1: "devices s1 = (if now - lastSeen d > 30000 then Map_delete (devices s) i else devices s)"
    using devices_cleanup_entry [of now i d s out] st by simp
  show ?case
    unfolding e
    by (auto simp add: st Cons.IH d1 Map_delete_def AList.delete_eq image_iff intro!: filter_cong)
qed

lemma cleanup_evicts:
  assumes "Map_get (devices s) sid = Some d" and "now - lastSeen d > 30000"
  shows "\<not> Map_has (devices (fst (cleanupDevices s now))) sid"
proof -
  have "(sid, d) \<in> set (devices s)"
    using assms(1) by (simp add: Map_get_def map_of_SomeD)
  with assms(2) have "\<exists>d. (sid, d) \<in> set (devices s) \<and> now - lastSeen d > 30000"
    by blast
  then have "sid \<notin> fst ` set (devices (fst (cleanupDevices s now)))"
    unfolding cleanupDevices_def devices_cleanup_fold by force
  then show ?thesis
    by (simp add: Map_has_def map_of_eq_None_iff)
qed

subsection \<open>Disconnecting an id that has no record\<close>

lemma on_disconnect_absent: "\<not> Map_has (devices s) sid \<Longrightarrow> on_disconnect s sid = (s, [])"
  by (simp add: on_disconnect_def Map_delete_absent) (simp add: Map_defs)

text \<open>
  Claim C6. A disconnect for an id that has no record in \<^verbatim>\<open>devices\<close> returns normally,
  sends nothing and leaves both maps as they were. That is the situation of a second
  disconnect for the same id, and of a disconnect after the sweeper evicted the id.
\<close>

theorem C6_disconnect_of_absent_id:
  "(\<not> Map_has (devices s) sid \<longrightarrow> step s (Disconnect sid) = Inr (s, [])) \<and>
   step (fst (on_disconnect s sid)) (Disconnect sid) = Inr (fst (on_disconnect s sid), []) \<and>
   (Map_get (devices s) sid = Some d \<and> now - lastSeen d > 30000 \<longrightarrow>
      step (fst (cleanupDevices s now)) (Disconnect sid) = Inr (fst (cleanupDevices s now), []))"
proof (intro conjI impI)
  assume "\<not> Map_has (devices s) sid"
  then show "step s (Disconnect sid) = Inr (s, [])"
    by (simp add: on_disconnect_absent)
next
  have "\<not> Map_has (devices (fst (on_disconnect s sid))) sid"
    by (simp add: on_disconnect_def Map_has_delete split: prod.split)
  then show "step (fst (on_disconnect s sid)) (Disconnect sid) = Inr (fst (on_disconnect s sid), [])"
    by (simp add: on_disconnect_absent)
next
  assume "Map_get (devices s) sid = Some d \<and> now - lastSeen d > 30000"
  then have "\<not> Map_has (devices (fst (cleanupDevices s now))) sid"
    using cleanup_evicts by blast
  then show "step (fst (cleanupDevices s now)) (Disconnect sid) = Inr (fst (cleanupDevices s now), [])"
    by (simp add: on_disconnect_absent)
qed

theorem C6_disconnect_of_absent_id_witness:
  "step initial (Disconnect ''a'') = Inr (initial, []) \<and>
   step (server swept_world) (Disconnect ''b'') = Inr (server swept_world, [])"
proof -
  have h1: "\<not> Map_has (devices initial) ''a''"
    by (simp add: initial_def Map_defs)
  have h2: "Map_get (devices (server lan_world)) ''b'' = Some (new_device ''b'' 0 ''LAN-10'') \<and>
      40000 - lastSeen (new_device ''b'' 0 ''LAN-10'') > 30000"
    by (simp add: lan_world_def Map_defs new_device_def)
  have sw: "fst (cleanupDevices (server lan_world) 40000) = server swept_world"
    by (simp add: sweep_lan_server)
  from C6_disconnect_of_absent_id [of initial "''a''"] h1
  have "step initial (Disconnect ''a'') = Inr (initial, [])" by blast
  moreover from C6_disconnect_of_absent_id [of "server lan_world" "''b''" "new_device ''b'' 0 ''LAN-10''" 40000] h2
  have "step (server swept_world) (Disconnect ''b'') = Inr (server swept_world, [])"
    unfolding sw by blast
  ultimately show ?thesis by simp
qed

subsection \<open>The relay handlers change nothing\<close>

lemma step_relay: "is_relay ev \<Longrightarrow> \<exists>out. step s ev = Inr (s, out)"
  by (cases ev) simp_all

lemma world_step_relay: "is_relay ev \<Longrightarrow> \<exists>out. world_step w ev = Inr (w, out)"
  by (cases ev) (simp_all add: world_step_def)

lemma run_relays: "list_all is_relay evs \<Longrightarrow> run w (evs @ rest) = run w rest"
proof (induction evs)
  case Nil
  show ?case by simp
next
  case (Cons ev evs)
  then obtain out where "world_step w ev = Inr (w, out)"
    using world_step_relay [of ev w] by auto
  with Cons show ?case by simp
qed

text \<open>
  Claim C9. Each of the seven relay events returns normally with both maps exactly as
  they were; so does any run of relay events. In particular no \<^verbatim>\<open>lastSeen\<close> is
  refreshed: a device whose record is older than 30 seconds is evicted by the next
  sweep, however many relay events were handled in between.
\<close>

theorem C9_relay_leaves_registry_alone:
  "(is_relay ev \<longrightarrow> (\<exists>out. step s ev = Inr (s, out))) \<and>
   (list_all is_relay evs \<longrightarrow> run w evs = Inr w) \<and>
   (list_all is_relay evs \<and> Map_get (devices (server w)) sid = Some d \<and>
    now - lastSeen d > 30000 \<longrightarrow>
      (\<exists>w'. run w (evs @ [Cleanup now]) = Inr w' \<and> \<not> Map_has (devices (server w')) sid))"
proof (intro conjI impI)
  assume "is_relay ev"
  then show "\<exists>out. step s ev = Inr (s, out)" by (rule step_relay)
next
  assume "list_all is_relay evs"
  then show "run w evs = Inr w"
    using run_relays [of evs w "[]"] by simp
next
  assume a: "list_all is_relay evs \<and> Map_get (devices (server w)) sid = Some d \<and>
    now - lastSeen d > 30000"
  then have r: "run w (evs @ [Cleanup now]) = run w [Cleanup now]"
    using run_relays by blast
  have "\<not> Map_has (devices (fst (cleanupDevices (server w) now))) sid"
    using a cleanup_evicts by blast
  then show "\<exists>w'. run w (evs @ [Cleanup now]) = Inr w' \<and> \<not> Map_has (devices (server w')) sid"
    unfolding r by (cases "cleanupDevices (server w) now") (simp add: world_step_def)
qed

theorem C9_relay_leaves_registry_alone_witness:
  "step (server lan_world) (SendMessage ''b'' ''a'' ''hi'') =
     Inr (server lan_world, [Emit (ToRoom ''a'') ''message'' (MessageP ''b'' ''hi'')]) \<and>
   run lan_world [SendMessage ''b'' ''a'' ''hi'', Signal ''b'' ''a'' JNull] = Inr lan_world \<and>
   run lan_world [SendMessage ''b'' ''a'' ''hi'', Signal ''b'' ''a'' JNull, Cleanup 40000] =
     Inr swept_world"
proof -
  let ?evs = "[SendMessage ''b'' ''a'' ''hi'', Signal ''b'' ''a'' JNull]"
  have h: "list_all is_relay ?evs \<and>
      Map_get (devices (server lan_world)) ''b'' = Some (new_device ''b'' 0 ''LAN-10'') \<and>
      40000 - lastSeen (new_device ''b'' 0 ''LAN-10'') > 30000"
    by (simp add: lan_world_def Map_defs new_device_def)
  have r: "is_relay (SendMessage ''b'' ''a'' ''hi'')" by simp
  note t = C9_relay_leaves_registry_alone
    [of "SendMessage ''b'' ''a'' ''hi''" "server lan_world" ?evs lan_world "''b''"
        "new_device ''b'' 0 ''LAN-10''" 40000]
  from t r have "\<exists>out. step (server lan_world) (SendMessage ''b'' ''a'' ''hi'') = Inr (server lan_world, out)"
    by blast
  then have c1: "step (server lan_world) (SendMessage ''b'' ''a'' ''hi'') =
     Inr (server lan_world, [Emit (ToRoom ''a'') ''message'' (MessageP ''b'' ''hi'')])"
    by (simp add: on_send_message_def)
  from t h have c2: "run lan_world ?evs = Inr lan_world" by blast
  from t h obtain w' where "run lan_world (?evs @ [Cleanup 40000]) = Inr w'" by blast
  then have c3: "run lan_world (?evs @ [Cleanup 40000]) = Inr swept_world"
    using run_relays [of ?evs lan_world "[Cleanup 40000]"] sweep_lan_world by simp
  from c1 c2 c3 show ?thesis by simp
qed

subsection \<open>Every record stays in the set of its group\<close>

lemma leave_group_lookup:
  "Map_get (fst (leave_group groups g i)) g' =
     (if g' = g then
        (case Map_get groups g of
           None \<Rightarrow> None
         | Some ms \<Rightarrow> if removeAll i ms = [] then None else Some (removeAll i ms))
      else Map_get groups g')"
  by (auto simp: leave_group_def Map_defs Let_def Set_delete_def AList.update_conv' AList.delete_conv'
      split: option.splits)

lemma leave_group_notices:
  "snd (leave_group groups g i) =
     (case Map_get groups g of
        None \<Rightarrow> []
      | Some ms \<Rightarrow> map (\<lambda>m. Emit (ToRoom m) ''device-left'' (IdP i)) (removeAll i ms))"
  by (auto simp: leave_group_def Map_defs Let_def Set_delete_def AList.update_conv' AList.delete_conv'
      split: option.splits)

lemma leave_group_keeps:
  assumes "Map_get groups g' = Some ms" and "j \<in> set ms" and "j \<noteq> i"
  shows "\<exists>ms'. Map_get (fst (leave_group groups g i)) g' = Some ms' \<and> j \<in> set ms'"
proof (cases "g' = g")
  case True
  from assms have in_rest: "j \<in> set (removeAll i ms)" by simp
  have "removeAll i ms \<noteq> []"
  proof
    assume "removeAll i ms = []"
    then have "set (removeAll i ms) = {}" by (simp only: set_empty)
    with in_rest show False by (simp only: empty_iff)
  qed
  with True assms show ?thesis
    by (simp add: leave_group_lookup)
next
  case False
  with assms show ?thesis by (simp add: leave_group_lookup)
qed

lemma cleanup_entry_state:
  "fst (cleanup_entry now (i, d) (s, out)) =
     (if now - lastSeen d > 30000 then
        \<lparr>devices = Map_delete (devices s) i,
         ipGroups = (case groupKey d of None \<Rightarrow> ipGroups s
                     | Some g \<Rightarrow> if g = [] then ipGroups s else fst (leave_group (ipGroups s) g i))\<rparr>
      else s)"
  by (simp add: cleanup_entry_def split: option.split prod.split)

lemma on_disconnect_state:
  "fst (on_disconnect s sid) =
     \<lparr>devices = Map_delete (devices s) sid,
      ipGroups = (case Map_get (devices s) sid of None \<Rightarrow> ipGroups s
                  | Some d \<Rightarrow> (case groupKey d of None \<Rightarrow> ipGroups s
                     | Some g \<Rightarrow> if g = [] then ipGroups s else fst (leave_group (ipGroups s) g sid)))\<rparr>"
  by (simp add: on_disconnect_def split: option.split prod.split)

lemma grouped_remove:
  assumes "grouped s"
  shows "grouped \<lparr>devices = Map_delete (devices s) i, ipGroups = fst (leave_group (ipGroups s) g i)\<rparr>"
  unfolding grouped_def
proof (intro allI impI)
  fix j d
  assume "Map_get (devices \<lparr>devices = Map_delete (devices s) i, ipGroups = fst (leave_group (ipGroups s) g i)\<rparr>) j = Some d"
  then have ji: "j \<noteq> i" and jd: "Map_get (devices s) j = Some d"
    by (auto simp: Map_defs AList.delete_conv' split: if_splits)
  from assms jd obtain gj where gj: "groupKey d = Some gj"
    and mem: "gj \<noteq> [] \<longrightarrow> (\<exists>ms. Map_get (ipGroups s) gj = Some ms \<and> j \<in> set ms)"
    unfolding grouped_def by blast
  show "\<exists>ga. groupKey d = Some ga \<and>
       (ga \<noteq> [] \<longrightarrow> (\<exists>members. Map_get (ipGroups \<lparr>devices = Map_delete (devices s) i, ipGroups = fst (leave_group (ipGroups s) g i)\<rparr>) ga = Some members \<and> j \<in> set members))"
    using gj mem ji leave_group_keeps [of "ipGroups s" gj _ j i g] by auto
qed

lemma grouped_delete:
  assumes "grouped s"
  shows "grouped \<lparr>devices = Map_delete (devices s) i, ipGroups = ipGroups s\<rparr>"
  using assms unfolding grouped_def
  by (auto simp: Map_defs AList.delete_conv' split: if_splits)

lemma grouped_cleanup_entry:
  "grouped s \<Longrightarrow> grouped (fst (cleanup_entry now e (s, out)))"
  by (cases e) (auto simp: cleanup_entry_state grouped_remove grouped_delete split: option.split)

lemma grouped_cleanup_fold:
  "grouped s \<Longrightarrow> grouped (fst (fold (cleanup_entry now) es (s, out)))"
proof (induction es arbitrary: s out)
  case Nil
  then show ?case by simp
next
  case (Cons e es)
  obtain s1 out1 where st: "cleanup_entry now e (s, out) = (s1, out1)"
    by (cases "cleanup_entry now e (s, out)")
  with Cons.prems have "grouped s1"
    using grouped_cleanup_entry [of s now e out] by simp
  then show ?case by (simp add: st Cons.IH)
qed

lemma grouped_disconnect: "grouped s \<Longrightarrow> grouped (fst (on_disconnect s sid))"
  by (auto simp: on_disconnect_state grouped_remove grouped_delete split: option.split)

lemma set_Set_add: "set (Set_add xs x) = insert x (set xs)"
  by (auto simp: Set_add_def)

lemma grouped_update_same_key:
  assumes "grouped s" and "Map_get (devices s) sid = Some d" and "groupKey d' = groupKey d"
  shows "grouped (s\<lparr>devices := Map_set (devices s) sid d'\<rparr>)"
  unfolding grouped_def
proof (intro allI impI)
  fix j e
  assume a: "Map_get (devices (s\<lparr>devices := Map_set (devices s) sid d'\<rparr>)) j = Some e"
  show "\<exists>g. groupKey e = Some g \<and>
           (g \<noteq> [] \<longrightarrow> (\<exists>members. Map_get (ipGroups (s\<lparr>devices := Map_set (devices s) sid d'\<rparr>)) g = Some members \<and> j \<in> set members))"
  proof (cases "j = sid")
    case True
    with a have "e = d'" by (simp add: Map_defs AList.update_conv')
    with True assms show ?thesis unfolding grouped_def by simp
  next
    case False
    with a have "Map_get (devices s) j = Some e" by (simp add: Map_defs AList.update_conv')
    with assms(1) show ?thesis unfolding grouped_def by simp
  qed
qed

lemma grouped_heartbeat: "grouped s \<Longrightarrow> grouped (on_heartbeat s sid now)"
  by (auto simp: on_heartbeat_def grouped_update_same_key split: option.split)

lemma on_device_info_state:
  assumes "on_device_info s sid ty ic nm = Inr (s', out)"
  shows "s' = (case Map_get (devices s) sid of
                 None \<Rightarrow> s
               | Some d \<Rightarrow> s\<lparr>devices := Map_set (devices s) sid
                               (d\<lparr>type := Some ty, icon := Some ic, name := Some nm\<rparr>)\<rparr>)"
  using assms
  by (auto simp: on_device_info_def Let_def split: option.splits if_splits)

lemma grouped_device_info:
  assumes "grouped s" and r: "on_device_info s sid ty ic nm = Inr (s', out)"
  shows "grouped s'"
proof (cases "Map_get (devices s) sid")
  case None
  with on_device_info_state [OF r] assms(1) show ?thesis by simp
next
  case (Some d)
  with on_device_info_state [OF r] assms(1) show ?thesis
    by (simp add: grouped_update_same_key)
qed

lemma on_connection_total: "\<exists>s' out. on_connection s sid ip now = Inr (s', out)"
  by (simp add: on_connection_def Let_def Map_defs AList.update_conv' split: option.split)

lemma on_connection_devices:
  assumes "on_connection s sid ip now = Inr (s', out)"
  shows "Map_get (devices s') j =
           (if j = sid then Some (new_device sid now (getNetworkGroup ip)) else Map_get (devices s) j)"
  using assms
  by (auto simp: on_connection_def Let_def Map_defs AList.update_conv' AList.delete_conv'
      split: option.splits if_splits)

lemma on_connection_groups:
  assumes "on_connection s sid ip now = Inr (s', out)"
  shows "Map_get (ipGroups s') g =
           (if g = getNetworkGroup ip then
              Some (Set_add (case Map_get (ipGroups s) g of None \<Rightarrow> [] | Some ms \<Rightarrow> ms) sid)
            else Map_get (ipGroups s) g)"
  using assms
  by (auto simp: on_connection_def Let_def Map_defs AList.update_conv' AList.delete_conv'
      split: option.splits if_splits)

lemma grouped_connection:
  assumes "grouped s" and c: "on_connection s sid ip now = Inr (s', out)"
  shows "grouped s'"
  unfolding grouped_def
proof (intro allI impI)
  fix j e
  assume a: "Map_get (devices s') j = Some e"
  show "\<exists>g. groupKey e = Some g \<and>
           (g \<noteq> [] \<longrightarrow> (\<exists>members. Map_get (ipGroups s') g = Some members \<and> j \<in> set members))"
  proof (cases "j = sid")
    case True
    with a have "e = new_device sid now (getNetworkGroup ip)"
      by (simp add: on_connection_devices [OF c])
    with True show ?thesis
      by (simp add: new_device_def on_connection_groups [OF c] set_Set_add)
  next
    case False
    with a have "Map_get (devices s) j = Some e"
      by (simp add: on_connection_devices [OF c])
    with assms(1) obtain g where g: "groupKey e = Some g"
      and m: "g \<noteq> [] \<longrightarrow> (\<exists>members. Map_get (ipGroups s) g = Some members \<and> j \<in> set members)"
      unfolding grouped_def by blast
    from g m show ?thesis
      by (auto simp: on_connection_groups [OF c] set_Set_add)
  qed
qed

subsection \<open>Every reachable state is grouped and connected\<close>

lemma has_cleanup:
  "Map_has (devices (fst (cleanupDevices s now))) i \<Longrightarrow> Map_has (devices s) i"
  unfolding cleanupDevices_def devices_cleanup_fold Map_has_def map_of_eq_None_iff
  by auto

lemma has_disconnect:
  "Map_has (devices (fst (on_disconnect s sid))) i \<longleftrightarrow> i \<noteq> sid \<and> Map_has (devices s) i"
  by (simp add: on_disconnect_state Map_defs AList.delete_conv')

lemma has_heartbeat:
  "Map_has (devices (on_heartbeat s sid now)) i \<longleftrightarrow> Map_has (devices s) i"
  by (auto simp: on_heartbeat_def Map_defs AList.update_conv' split: option.splits)

lemma has_device_info:
  assumes "on_device_info s sid ty ic nm = Inr (s', out)"
  shows "Map_has (devices s') i \<longleftrightarrow> Map_has (devices s) i"
  unfolding on_device_info_state [OF assms]
  by (auto simp: Map_defs AList.update_conv' split: option.splits)

lemma has_connection:
  assumes "on_connection s sid ip now = Inr (s', out)"
  shows "Map_has (devices s') i \<longleftrightarrow> i = sid \<or> Map_has (devices s) i"
  using on_connection_devices [OF assms, of i]
  by (auto simp: Map_has_def Map_get_def)

lemma connected_step:
  assumes "connected w" and "world_step w ev = Inr (w', out)"
  shows "connected w'"
proof -
  obtain s' where st: "step (server w) ev = Inr (s', out)"
    and w': "w' = \<lparr>server = s', sockets = transport (sockets w) ev\<rparr>"
    using assms(2) by (auto simp: world_step_def split: sum.splits)
  have "i \<in> transport (sockets w) ev" if "Map_has (devices s') i" for i
  proof (cases ev)
    case (Connection sid ip now)
    with st that assms(1) show ?thesis
      by (auto simp: has_connection connected_def)
  next
    case (Heartbeat sid now)
    with st that assms(1) show ?thesis
      by (auto simp: has_heartbeat connected_def)
  next
    case (DeviceInfoEv sid ty ic nm)
    with st that assms(1) show ?thesis
      by (auto simp: has_device_info connected_def)
  next
    case (Disconnect sid)
    with st have "s' = fst (on_disconnect (server w) sid)" by simp
    with that have "i \<noteq> sid \<and> Map_has (devices (server w)) i"
      by (simp add: has_disconnect)
    with Disconnect assms(1) show ?thesis
      by (simp add: connected_def)
  next
    case (Cleanup now)
    with st have "s' = fst (cleanupDevices (server w) now)" by simp
    with that have "Map_has (devices (server w)) i"
      using has_cleanup by blast
    with Cleanup assms(1) show ?thesis
      by (simp add: connected_def)
  qed (use st that assms(1) in \<open>auto simp: connected_def\<close>)
  then show ?thesis by (simp add: connected_def w')
qed

lemma grouped_step:
  assumes "grouped s" and "step s ev = Inr (s', out)"
  shows "grouped s'"
proof (cases ev)
  case (Connection sid ip now)
  with assms show ?thesis by (auto intro: grouped_connection)
next
  case (Heartbeat sid now)
  with assms show ?thesis by (auto intro: grouped_heartbeat)
next
  case (DeviceInfoEv sid ty ic nm)
  with assms show ?thesis by (auto intro: grouped_device_info)
next
  case (Disconnect sid)
  with assms grouped_disconnect [of s sid] show ?thesis by auto
next
  case (Cleanup now)
  with assms grouped_cleanup_fold [of s now "devices s" "[]"] show ?thesis
    by (auto simp: cleanupDevices_def)
qed (use assms in auto)

lemma reachable_grouped_connected:
  "reachable w \<Longrightarrow> grouped (server w) \<and> connected w"
proof (induction rule: reachable.induct)
  case reachable_start
  show ?case
    by (simp add: grouped_def connected_def world0_def initial_def Map_defs)
next
  case (reachable_next w ev w' out)
  from reachable_next.hyps(2) obtain s' where st: "step (server w) ev = Inr (s', out)"
    and w': "server w' = s'"
    by (auto simp: world_step_def split: sum.splits)
  from reachable_next.IH st w' have "grouped (server w')"
    using grouped_step by blast
  moreover from reachable_next.IH reachable_next.hyps(2) have "connected w'"
    using connected_step by blast
  ultimately show ?case by simp
qed

lemma run_reachable: "reachable w \<Longrightarrow> run w evs = Inr w' \<Longrightarrow> reachable w'"
proof (induction evs arbitrary: w)
  case Nil
  then show ?case by simp
next
  case (Cons ev evs)
  then show ?case
    by (auto split: sum.splits intro: reachable_next)
qed

lemma reachable_lan_world: "reachable lan_world"
  using run_reachable [OF reachable_start run_lan_trace] .

lemma reachable_swept_world: "reachable swept_world"
  using reachable_next [OF reachable_lan_world sweep_lan_world] .

lemma step_blank_world:
  "world_step world0 (Connection ''a'' [] 0) =
     Inr (blank_world, [Emit (ToSocket ''a'') ''device-info'' (DeviceInfoP ''a'' [])])"
  by (simp add: blank_world_def handler_defs Map_defs group_of_empty List.map_filter_simps Let_def)

lemma reachable_blank_world: "reachable blank_world"
  using reachable_next [OF reachable_start step_blank_world] .

subsection \<open>Relaying to a target\<close>

lemma run_append:
  "run w (xs @ ys) = (case run w xs of Inl e \<Rightarrow> Inl e | Inr w' \<Rightarrow> run w' ys)"
  by (induction xs arbitrary: w) (auto split: sum.splits)

lemma relays_intro:
  assumes "step (server w) ev = Inr (server w, [Emit (ToRoom t) k p])"
    and "transport (sockets w) ev = sockets w"
  shows "relays w ev t k p"
  using assms by (simp add: relays_def delivered_def world_step_def deliveries_def)

text \<open>
  Claim C1, as amended. Each of the seven relay events returns normally, changes no state
  and emits exactly one event: to the room of the target id, under the outbound event
  name, with the sender's id and the payload fields as they came. The open socket with
  the target id receives it and no other socket does; when no socket with that id is
  open, nobody receives anything and the sender is told nothing. The registry is not
  consulted. In every reachable state an id with a record has an open socket, so a
  registered target does receive the event.
\<close>

theorem C1_relay_reaches_open_socket:
  "relays w (SendMessage sid t m) t ''message'' (MessageP sid m) \<and>
   relays w (FileTransferRequest sid t fn fs tid) t ''file-transfer-request''
     (FileTransferRequestP sid fn fs tid) \<and>
   relays w (FileTransferResponse sid t tid acc) t ''file-transfer-response''
     (FileTransferResponseP sid tid acc) \<and>
   relays w (FileData sid t ch fn tid off tot) t ''file-data''
     (FileDataP sid ch fn tid off tot) \<and>
   relays w (CancelTransfer sid t tid) t ''cancel-transfer'' (CancelTransferP sid tid) \<and>
   relays w (Signal sid t sg) t ''signal'' (SignalP sid sg) \<and>
   relays w (P2pFailed sid t tid) t ''p2p-failed'' (P2pFailedP sid tid) \<and>
   (reachable w \<and> Map_has (devices (server w)) t \<longrightarrow> t \<in> sockets w)"
proof -
  have "reachable w \<and> Map_has (devices (server w)) t \<longrightarrow> t \<in> sockets w"
    using reachable_grouped_connected [of w] by (auto simp: connected_def)
  then show ?thesis
    by (simp add: relays_intro on_send_message_def on_file_transfer_request_def
        on_file_transfer_response_def on_file_data_def on_cancel_transfer_def on_signal_def
        on_p2p_failed_def)
qed

theorem C1_relay_reaches_open_socket_witness:
  "world_step lan_world (SendMessage ''a'' ''b'' ''hi'') =
     Inr (lan_world, [Emit (ToRoom ''b'') ''message'' (MessageP ''a'' ''hi'')]) \<and>
   delivered lan_world (SendMessage ''a'' ''b'' ''hi'') = [(''b'', ''message'', MessageP ''a'' ''hi'')] \<and>
   delivered lan_world (SendMessage ''a'' ''zz'' ''hi'') = []"
proof -
  have h: "reachable lan_world \<and> Map_has (devices (server lan_world)) ''b''"
    by (simp add: reachable_lan_world) (simp add: lan_world_def Map_defs)
  from C1_relay_reaches_open_socket [of lan_world "''a''" "''b''" "''hi''"] h
  have b: "''b'' \<in> sockets lan_world"
    and r: "relays lan_world (SendMessage ''a'' ''b'' ''hi'') ''b'' ''message'' (MessageP ''a'' ''hi'')"
    by blast+
  from C1_relay_reaches_open_socket [of lan_world "''a''" "''zz''" "''hi''"]
  have r2: "relays lan_world (SendMessage ''a'' ''zz'' ''hi'') ''zz'' ''message'' (MessageP ''a'' ''hi'')"
    by blast
  have "''zz'' \<notin> sockets lan_world" by (simp add: lan_world_def)
  with b r r2 show ?thesis by (simp add: relays_def)
qed

text \<open>
  Claim C1 as stated fails for a target without a record: after the sweeper evicted
  \<open>b\<close>, whose socket is still open, a message for \<open>b\<close> is delivered to it.
\<close>

theorem C1_unregistered_target_counterexample:
  "run world0 (lan_trace @ [Cleanup 40000]) = Inr swept_world \<and>
   \<not> Map_has (devices (server swept_world)) ''b'' \<and>
   delivered swept_world (SendMessage ''a'' ''b'' ''hi'') =
     [(''b'', ''message'', MessageP ''a'' ''hi'')]"
proof -
  have "run world0 (lan_trace @ [Cleanup 40000]) = Inr swept_world"
    by (simp add: run_append run_lan_trace sweep_lan_world)
  moreover have "\<not> Map_has (devices (server swept_world)) ''b''"
    by (simp add: swept_world_def Map_defs)
  moreover have "delivered swept_world (SendMessage ''a'' ''b'' ''hi'') =
     [(''b'', ''message'', MessageP ''a'' ''hi'')]"
    by (simp add: delivered_def world_step_def on_send_message_def deliveries_def swept_world_def)
  ultimately show ?thesis by simp
qed

subsection \<open>Profile updates\<close>

lemma deliveries_rooms:
  "deliveries socks (map (\<lambda>i. Emit (ToRoom i) k p) members) =
     map (\<lambda>i. (i, k, p)) (filter (\<lambda>i. i \<in> socks) members)"
  by (induction members) (auto simp: deliveries_def)

lemma on_device_info_absent:
  "Map_get (devices s) sid = None \<Longrightarrow> on_device_info s sid ty ic nm = Inr (s, [])"
  by (simp add: on_device_info_def)

lemma on_device_info_present:
  assumes "Map_get (devices s) sid = Some d" and "groupKey d = Some g" and "g \<noteq> []"
    and "Map_get (ipGroups s) g = Some members"
  shows "on_device_info s sid ty ic nm =
     Inr (s\<lparr>devices := Map_set (devices s) sid
              (d\<lparr>type := Some ty, icon := Some ic, name := Some nm\<rparr>)\<rparr>,
          map (\<lambda>i. Emit (ToRoom i) ''device-info-update'' (DeviceInfoUpdateP sid ty ic nm)) members)"
  using assms by (simp add: on_device_info_def Let_def)

lemma on_device_info_registered:
  assumes "Map_get (devices s) sid = Some d" and "groupKey d = Some g"
    and "g \<noteq> [] \<longrightarrow> Map_get (ipGroups s) g = Some members"
  shows "on_device_info s sid ty ic nm =
     Inr (s\<lparr>devices := Map_set (devices s) sid
              (d\<lparr>type := Some ty, icon := Some ic, name := Some nm\<rparr>)\<rparr>,
          if g = [] then []
          else map (\<lambda>i. Emit (ToRoom i) ''device-info-update'' (DeviceInfoUpdateP sid ty ic nm)) members)"
  using assms by (simp add: on_device_info_def Let_def)

text \<open>
  Claim C4, as amended. A \<^verbatim>\<open>device-info\<close> event from an id without a record returns
  normally, changes nothing and delivers nothing. In every reachable state, the event from
  an id with a record returns normally and sets the record's \<^verbatim>\<open>type\<close>, \<^verbatim>\<open>icon\<close> and
  \<^verbatim>\<open>name\<close>, leaving every other field, every other record, the group index and the open
  sockets as they were. The record carries a group key. If the key is not the empty
  string, its group exists, the set of the group holds the updating id, and one
  \<^verbatim>\<open>device-info-update\<close> is sent to every id of that set: every one of them with an
  open socket receives it, the updating socket included. If the key is the empty string
  nothing is sent. The classifier returns the empty string for the empty address only.
\<close>

theorem C4_profile_update:
  "(Map_get (devices s) sid = None \<longrightarrow> step s (DeviceInfoEv sid ty ic nm) = Inr (s, [])) \<and>
   (Map_get (devices (server w)) sid = None \<longrightarrow>
      world_step w (DeviceInfoEv sid ty ic nm) = Inr (w, []) \<and>
      delivered w (DeviceInfoEv sid ty ic nm) = []) \<and>
   (reachable w \<and> Map_get (devices (server w)) sid = Some d \<longrightarrow>
      (\<exists>g members.
         groupKey d = Some g \<and>
         (g \<noteq> [] \<longrightarrow> Map_get (ipGroups (server w)) g = Some members \<and> sid \<in> set members) \<and>
         sid \<in> sockets w \<and>
         world_step w (DeviceInfoEv sid ty ic nm) =
           Inr (w\<lparr>server := (server w)\<lparr>devices := Map_set (devices (server w)) sid
                    (d\<lparr>type := Some ty, icon := Some ic, name := Some nm\<rparr>)\<rparr>\<rparr>,
                if g = [] then []
                else map (\<lambda>i. Emit (ToRoom i) ''device-info-update''
                               (DeviceInfoUpdateP sid ty ic nm)) members) \<and>
         delivered w (DeviceInfoEv sid ty ic nm) =
           (if g = [] then []
            else map (\<lambda>i. (i, ''device-info-update'', DeviceInfoUpdateP sid ty ic nm))
                   (filter (\<lambda>i. i \<in> sockets w) members)) \<and>
         (g \<noteq> [] \<longrightarrow>
            (sid, ''device-info-update'', DeviceInfoUpdateP sid ty ic nm)
              \<in> set (delivered w (DeviceInfoEv sid ty ic nm))))) \<and>
   (getNetworkGroup ip = [] \<longleftrightarrow> ip = [])"
proof (intro conjI impI)
  assume "Map_get (devices s) sid = None"
  then show "step s (DeviceInfoEv sid ty ic nm) = Inr (s, [])"
    by (simp add: on_device_info_absent)
next
  assume "Map_get (devices (server w)) sid = None"
  then show "world_step w (DeviceInfoEv sid ty ic nm) = Inr (w, [])"
    by (simp add: world_step_def on_device_info_absent)
next
  assume "Map_get (devices (server w)) sid = None"
  then show "delivered w (DeviceInfoEv sid ty ic nm) = []"
    by (simp add: delivered_def world_step_def on_device_info_absent deliveries_def)
next
  let ?ev = "DeviceInfoEv sid ty ic nm"
  let ?p = "DeviceInfoUpdateP sid ty ic nm"
  let ?s' = "(server w)\<lparr>devices := Map_set (devices (server w)) sid
                    (d\<lparr>type := Some ty, icon := Some ic, name := Some nm\<rparr>)\<rparr>"
  assume a: "reachable w \<and> Map_get (devices (server w)) sid = Some d"
  then have gr: "grouped (server w)" and co: "connected w"
    using reachable_grouped_connected by blast+
  from gr a obtain g where g: "groupKey d = Some g"
    and ex: "g \<noteq> [] \<longrightarrow> (\<exists>members. Map_get (ipGroups (server w)) g = Some members \<and> sid \<in> set members)"
    unfolding grouped_def by blast
  obtain members where m: "g \<noteq> [] \<longrightarrow> Map_get (ipGroups (server w)) g = Some members \<and> sid \<in> set members"
    using ex by blast
  from co a have so: "sid \<in> sockets w"
    by (simp add: connected_def Map_defs)
  have st: "on_device_info (server w) sid ty ic nm =
      Inr (?s', if g = [] then []
                else map (\<lambda>i. Emit (ToRoom i) ''device-info-update'' ?p) members)"
    using a g m by (intro on_device_info_registered) simp_all
  have tr: "\<lparr>server = ?s', sockets = sockets w\<rparr> = w\<lparr>server := ?s'\<rparr>" by simp
  have ws: "world_step w ?ev =
      Inr (w\<lparr>server := ?s'\<rparr>,
           if g = [] then [] else map (\<lambda>i. Emit (ToRoom i) ''device-info-update'' ?p) members)"
    by (simp add: world_step_def st)
  have del: "delivered w ?ev =
      (if g = [] then []
       else map (\<lambda>i. (i, ''device-info-update'', ?p)) (filter (\<lambda>i. i \<in> sockets w) members))"
    by (simp add: delivered_def ws deliveries_rooms) (simp add: deliveries_def)
  have own: "g \<noteq> [] \<longrightarrow> (sid, ''device-info-update'', ?p) \<in> set (delivered w ?ev)"
    unfolding del using m so by simp
  from g m so ws del own
  show "\<exists>g members.
         groupKey d = Some g \<and>
         (g \<noteq> [] \<longrightarrow> Map_get (ipGroups (server w)) g = Some members \<and> sid \<in> set members) \<and>
         sid \<in> sockets w \<and>
         world_step w ?ev =
           Inr (w\<lparr>server := ?s'\<rparr>,
                if g = [] then []
                else map (\<lambda>i. Emit (ToRoom i) ''device-info-update'' ?p) members) \<and>
         delivered w ?ev =
           (if g = [] then []
            else map (\<lambda>i. (i, ''device-info-update'', ?p))
                   (filter (\<lambda>i. i \<in> sockets w) members)) \<and>
         (g \<noteq> [] \<longrightarrow> (sid, ''device-info-update'', ?p) \<in> set (delivered w ?ev))"
    by blast
next
  show "getNetworkGroup ip = [] \<longleftrightarrow> ip = []" by (rule group_empty_iff)
qed

theorem C4_profile_update_witness:
  "step initial (DeviceInfoEv ''a'' ''phone'' ''p.png'' ''Ann'') = Inr (initial, []) \<and>
   world_step lan_world (DeviceInfoEv ''a'' ''phone'' ''p.png'' ''Ann'') =
     Inr (\<lparr>server =
             \<lparr>devices =
                [(''a'', \<lparr>id_dev = ''a'', lastSeen = 25000, type = Some ''phone'',
                         icon = Some ''p.png'', name = Some ''Ann'', groupKey = Some ''LAN-10''\<rparr>),
                 (''b'', new_device ''b'' 0 ''LAN-10'')],
              ipGroups = [(''LAN-10'', [''a'', ''b''])]\<rparr>,
           sockets = {''a'', ''b''}\<rparr>,
          [Emit (ToRoom ''a'') ''device-info-update'' (DeviceInfoUpdateP ''a'' ''phone'' ''p.png'' ''Ann''),
           Emit (ToRoom ''b'') ''device-info-update'' (DeviceInfoUpdateP ''a'' ''phone'' ''p.png'' ''Ann'')]) \<and>
   (''a'', ''device-info-update'', DeviceInfoUpdateP ''a'' ''phone'' ''p.png'' ''Ann'')
      \<in> set (delivered lan_world (DeviceInfoEv ''a'' ''phone'' ''p.png'' ''Ann'')) \<and>
   world_step blank_world (DeviceInfoEv ''a'' ''phone'' ''p.png'' ''Ann'') =
     Inr (\<lparr>server =
             \<lparr>devices =
                [(''a'', \<lparr>id_dev = ''a'', lastSeen = 0, type = Some ''phone'',
                         icon = Some ''p.png'', name = Some ''Ann'', groupKey = Some []\<rparr>)],
              ipGroups = [([], [''a''])]\<rparr>,
           sockets = {''a''}\<rparr>, []) \<and>
   delivered blank_world (DeviceInfoEv ''a'' ''phone'' ''p.png'' ''Ann'') = []"
proof -
  let ?ev = "DeviceInfoEv ''a'' ''phone'' ''p.png'' ''Ann''"
  let ?d = "new_device ''a'' 25000 ''LAN-10''"
  let ?e = "new_device ''a'' 0 []"
  have h0: "Map_get (devices initial) ''a'' = None"
    by (simp add: initial_def Map_defs)
  have h1: "reachable lan_world \<and> Map_get (devices (server lan_world)) ''a'' = Some ?d"
    using reachable_lan_world by (simp add: lan_world_def Map_defs)
  have h2: "reachable blank_world \<and> Map_get (devices (server blank_world)) ''a'' = Some ?e"
    using reachable_blank_world by (simp add: blank_world_def Map_defs)
  from C4_profile_update [of initial "''a''" "''phone''" "''p.png''" "''Ann''"] h0
  have c0: "step initial ?ev = Inr (initial, [])"
    by blast
  from C4_profile_update [of _ "''a''" "''phone''" "''p.png''" "''Ann''" lan_world ?d] h1
  obtain g members where k: "groupKey ?d = Some g"
    and m: "g \<noteq> [] \<longrightarrow> Map_get (ipGroups (server lan_world)) g = Some members \<and> ''a'' \<in> set members"
    and w: "world_step lan_world ?ev =
           Inr (lan_world\<lparr>server := (server lan_world)\<lparr>devices := Map_set (devices (server lan_world)) ''a''
                    (?d\<lparr>type := Some ''phone'', icon := Some ''p.png'', name := Some ''Ann''\<rparr>)\<rparr>\<rparr>,
                if g = [] then []
                else map (\<lambda>i. Emit (ToRoom i) ''device-info-update''
                               (DeviceInfoUpdateP ''a'' ''phone'' ''p.png'' ''Ann'')) members)"
    and o: "g \<noteq> [] \<longrightarrow>
            (''a'', ''device-info-update'', DeviceInfoUpdateP ''a'' ''phone'' ''p.png'' ''Ann'')
              \<in> set (delivered lan_world ?ev)"
    by blast
  from k have g: "g = ''LAN-10''" by (simp add: new_device_def)
  from m g have ms: "members = [''a'', ''b'']" by (simp add: lan_world_def Map_defs)
  from w have c1: "world_step lan_world ?ev =
     Inr (\<lparr>server =
             \<lparr>devices =
                [(''a'', \<lparr>id_dev = ''a'', lastSeen = 25000, type = Some ''phone'',
                         icon = Some ''p.png'', name = Some ''Ann'', groupKey = Some ''LAN-10''\<rparr>),
                 (''b'', new_device ''b'' 0 ''LAN-10'')],
              ipGroups = [(''LAN-10'', [''a'', ''b''])]\<rparr>,
           sockets = {''a'', ''b''}\<rparr>,
          [Emit (ToRoom ''a'') ''device-info-update'' (DeviceInfoUpdateP ''a'' ''phone'' ''p.png'' ''Ann''),
           Emit (ToRoom ''b'') ''device-info-update'' (DeviceInfoUpdateP ''a'' ''phone'' ''p.png'' ''Ann'')])"
    unfolding g ms by (simp add: lan_world_def Map_defs new_device_def)
  from o g have c2: "(''a'', ''device-info-update'', DeviceInfoUpdateP ''a'' ''phone'' ''p.png'' ''Ann'')
      \<in> set (delivered lan_world ?ev)" by simp
  from C4_profile_update [of _ "''a''" "''phone''" "''p.png''" "''Ann''" blank_world ?e] h2
  obtain g' members' where k': "groupKey ?e = Some g'"
    and w': "world_step blank_world ?ev =
           Inr (blank_world\<lparr>server := (server blank_world)\<lparr>devices := Map_set (devices (server blank_world)) ''a''
                    (?e\<lparr>type := Some ''phone'', icon := Some ''p.png'', name := Some ''Ann''\<rparr>)\<rparr>\<rparr>,
                if g' = [] then []
                else map (\<lambda>i. Emit (ToRoom i) ''device-info-update''
                               (DeviceInfoUpdateP ''a'' ''phone'' ''p.png'' ''Ann'')) members')"
    and d': "delivered blank_world ?ev =
           (if g' = [] then []
            else map (\<lambda>i. (i, ''device-info-update'', DeviceInfoUpdateP ''a'' ''phone'' ''p.png'' ''Ann''))
                   (filter (\<lambda>i. i \<in> sockets blank_world) members'))"
    by blast
  from k' have g': "g' = []" by (simp add: new_device_def)
  from w' have c3: "world_step blank_world ?ev =
     Inr (\<lparr>server =
             \<lparr>devices =
                [(''a'', \<lparr>id_dev = ''a'', lastSeen = 0, type = Some ''phone'',
                         icon = Some ''p.png'', name = Some ''Ann'', groupKey = Some []\<rparr>)],
              ipGroups = [([], [''a''])]\<rparr>,
           sockets = {''a''}\<rparr>, [])"
    unfolding g' by (simp add: blank_world_def Map_defs new_device_def)
  from d' g' have c4: "delivered blank_world ?ev = []" by simp
  from c0 c1 c2 c3 c4 show ?thesis by simp
qed

text \<open>
  Claim C4 as stated fails where it excludes the updating connection: \<open>a\<close> updates its
  profile and receives the notice itself, before \<open>b\<close> does.
\<close>

theorem C4_updater_notified_counterexample:
  "run world0 lan_trace = Inr lan_world \<and>
   delivered lan_world (DeviceInfoEv ''a'' ''phone'' ''p.png'' ''Ann'') =
     [(''a'', ''device-info-update'', DeviceInfoUpdateP ''a'' ''phone'' ''p.png'' ''Ann''),
      (''b'', ''device-info-update'', DeviceInfoUpdateP ''a'' ''phone'' ''p.png'' ''Ann'')]"
  by (simp add: run_lan_trace)
    (simp add: delivered_def world_step_def on_device_info_def deliveries_def lan_world_def
      Map_defs new_device_def Let_def)

subsection \<open>Orderly runs keep the registry and the index consistent\<close>

lemma distinct_leave_group:
  "distinct (map fst groups) \<Longrightarrow> distinct (map fst (fst (leave_group groups g i)))"
  by (auto simp: leave_group_def Let_def Map_defs AList.distinct_update AList.distinct_delete
      split: option.splits)

lemma tidyD_record:
  "tidy s \<Longrightarrow> Map_get (devices s) i = Some d \<Longrightarrow>
   id_dev d = i \<and> (\<exists>g members. groupKey d = Some g \<and> g \<noteq> [] \<and> Map_get (ipGroups s) g = Some members)"
  unfolding tidy_def by blast

lemma tidyD_group:
  "tidy s \<Longrightarrow> Map_get (ipGroups s) g = Some members \<Longrightarrow>
   distinct members \<and> members \<noteq> [] \<and>
   set members = {i. \<exists>d. Map_get (devices s) i = Some d \<and> groupKey d = Some g}"
  unfolding tidy_def by blast

lemma tidy_member:
  assumes "tidy s" and "Map_get (devices s) i = Some d" and "groupKey d = Some g"
  shows "\<exists>members. Map_get (ipGroups s) g = Some members \<and> i \<in> set members"
proof -
  from tidyD_record [OF assms(1,2)] assms(3) obtain members
    where m: "Map_get (ipGroups s) g = Some members" by auto
  from tidyD_group [OF assms(1) m] assms(2,3) have "i \<in> set members" by blast
  with m show ?thesis by blast
qed

lemma tidy_remove:
  assumes t: "tidy s" and reg: "Map_get (devices s) sid = Some d" and key: "groupKey d = Some g"
  shows "tidy \<lparr>devices = Map_delete (devices s) sid, ipGroups = fst (leave_group (ipGroups s) g sid)\<rparr>"
proof -
  let ?D = "Map_delete (devices s) sid"
  let ?G = "fst (leave_group (ipGroups s) g sid)"
  from tidy_member [OF t reg key] obtain ms where ms: "Map_get (ipGroups s) g = Some ms"
    and sid_ms: "sid \<in> set ms" by blast
  have dev': "Map_get ?D j = (if j = sid then None else Map_get (devices s) j)" for j
    by (simp add: Map_defs AList.delete_conv')
  have grp': "Map_get ?G g' =
      (if g' = g then (if removeAll sid ms = [] then None else Some (removeAll sid ms))
       else Map_get (ipGroups s) g')" for g'
    using ms by (simp add: leave_group_lookup)
  have c1: "distinct (map fst ?D)"
    using t by (simp add: tidy_def Map_defs AList.distinct_delete)
  have c3: "distinct (map fst ?G)"
    using t by (simp add: tidy_def distinct_leave_group)
  have c2: "id_dev e = j \<and>
        (\<exists>g' members. groupKey e = Some g' \<and> g' \<noteq> [] \<and> Map_get ?G g' = Some members)"
    if a: "Map_get ?D j = Some e" for j e
  proof -
    from a have js: "j \<noteq> sid" and je: "Map_get (devices s) j = Some e"
      by (auto simp: dev' split: if_splits)
    from tidyD_record [OF t je] obtain g' where g': "id_dev e = j" "groupKey e = Some g'" "g' \<noteq> []"
      by blast
    from tidy_member [OF t je g'(2)] obtain ms' where ms': "Map_get (ipGroups s) g' = Some ms'"
      and j_ms': "j \<in> set ms'" by blast
    show ?thesis
    proof (cases "g' = g")
      case True
      with ms ms' have "ms' = ms" by simp
      with j_ms' js have "j \<in> set (removeAll sid ms)" by simp
      then have "removeAll sid ms \<noteq> []" by (metis empty_iff set_empty)
      with True g' show ?thesis by (simp add: grp')
    next
      case False
      with g' ms' show ?thesis by (simp add: grp')
    qed
  qed
  have c4: "distinct members \<and> members \<noteq> [] \<and>
        set members = {i. \<exists>e. Map_get ?D i = Some e \<and> groupKey e = Some g'}"
    if a: "Map_get ?G g' = Some members" for g' members
  proof (cases "g' = g")
    case True
    with a have m: "members = removeAll sid ms" and ne: "removeAll sid ms \<noteq> []"
      by (auto simp: grp' split: if_splits)
    from tidyD_group [OF t ms] have d: "distinct ms"
      and sm: "set ms = {i. \<exists>e. Map_get (devices s) i = Some e \<and> groupKey e = Some g}" by blast+
    have "set members = {i. \<exists>e. Map_get ?D i = Some e \<and> groupKey e = Some g'}"
      unfolding m True using sm by (auto simp: dev')
    with m ne d show ?thesis by (simp add: distinct_removeAll)
  next
    case False
    with a have old: "Map_get (ipGroups s) g' = Some members" by (simp add: grp')
    from tidyD_group [OF t old] have d: "distinct members" "members \<noteq> []"
      and sm: "set members = {i. \<exists>e. Map_get (devices s) i = Some e \<and> groupKey e = Some g'}" by blast+
    have "{i. \<exists>e. Map_get (devices s) i = Some e \<and> groupKey e = Some g'} =
          {i. \<exists>e. Map_get ?D i = Some e \<and> groupKey e = Some g'}"
      using reg key False by (auto simp: dev')
    with d sm show ?thesis by simp
  qed
  show ?thesis
    unfolding tidy_def using c1 c2 c3 c4 by simp
qed

lemma tidy_disconnect:
  assumes "tidy s"
  shows "tidy (fst (on_disconnect s sid))"
proof (cases "Map_get (devices s) sid")
  case None
  then have "\<not> Map_has (devices s) sid" by (simp add: Map_defs)
  with assms show ?thesis by (simp add: on_disconnect_absent)
next
  case (Some d)
  from tidyD_record [OF assms Some] obtain g where g: "groupKey d = Some g" "g \<noteq> []" by blast
  with Some tidy_remove [OF assms Some g(1)] show ?thesis
    by (simp add: on_disconnect_state)
qed

lemma new_device_sel:
  "id_dev (new_device i t g) = i" "lastSeen (new_device i t g) = t"
  "groupKey (new_device i t g) = Some g"
  by (simp_all add: new_device_def)

lemma Set_add_nonempty: "Set_add xs x \<noteq> []"
  by (auto simp: Set_add_def)

lemma distinct_Set_add: "distinct xs \<Longrightarrow> distinct (Set_add xs x)"
  by (simp add: Set_add_def)

lemma tidy_update_same_key:
  assumes t: "tidy s" and reg: "Map_get (devices s) sid = Some d"
    and same: "groupKey d' = groupKey d" "id_dev d' = id_dev d"
  shows "tidy (s\<lparr>devices := Map_set (devices s) sid d'\<rparr>)"
proof -
  let ?D = "Map_set (devices s) sid d'"
  have dev': "Map_get ?D j = (if j = sid then Some d' else Map_get (devices s) j)" for j
    by (simp add: Map_defs AList.update_conv')
  have keys: "(\<exists>e. Map_get ?D i = Some e \<and> groupKey e = Some g) \<longleftrightarrow>
      (\<exists>e. Map_get (devices s) i = Some e \<and> groupKey e = Some g)" for i g
    using reg same by (auto simp: dev')
  have c1: "distinct (map fst ?D)"
    using t by (simp add: tidy_def Map_defs AList.distinct_update)
  have c2: "id_dev e = j \<and>
        (\<exists>g members. groupKey e = Some g \<and> g \<noteq> [] \<and> Map_get (ipGroups s) g = Some members)"
    if a: "Map_get ?D j = Some e" for j e
  proof (cases "j = sid")
    case True
    with a have "e = d'" by (simp add: dev')
    with True same tidyD_record [OF t reg] show ?thesis by simp
  next
    case False
    with a have "Map_get (devices s) j = Some e" by (simp add: dev')
    with tidyD_record [OF t] show ?thesis by blast
  qed
  have c4: "distinct members \<and> members \<noteq> [] \<and>
        set members = {i. \<exists>e. Map_get ?D i = Some e \<and> groupKey e = Some g}"
    if a: "Map_get (ipGroups s) g = Some members" for g members
    using tidyD_group [OF t a] by (simp add: keys)
  show ?thesis
    unfolding tidy_def using c1 c2 c4 t by (simp add: tidy_def)
qed

lemma tidy_heartbeat: "tidy s \<Longrightarrow> tidy (on_heartbeat s sid now)"
  by (auto simp: on_heartbeat_def tidy_update_same_key split: option.split)

lemma tidy_device_info:
  assumes "tidy s" and r: "on_device_info s sid ty ic nm = Inr (s', out)"
  shows "tidy s'"
proof (cases "Map_get (devices s) sid")
  case None
  with on_device_info_state [OF r] assms(1) show ?thesis by simp
next
  case (Some d)
  with on_device_info_state [OF r] assms(1) show ?thesis
    by (simp add: tidy_update_same_key)
qed

lemma on_connection_fresh:
  assumes fresh: "\<not> Map_has (devices s) sid"
  shows "on_connection s sid ip now =
     (let g = getNetworkGroup ip;
          members = Set_add (case Map_get (ipGroups s) g of None \<Rightarrow> [] | Some ms \<Rightarrow> ms) sid;
          others = filter (\<lambda>i. i \<noteq> sid) members
      in Inr (\<lparr>devices = Map_set (devices s) sid (new_device sid now g),
               ipGroups = Map_set (ipGroups s) g members\<rparr>,
              Emit (ToSocket sid) ''device-info'' (DeviceInfoP sid (List.map_filter (Map_get (devices s)) others))
              # map (\<lambda>i. Emit (ToRoom i) ''device-joined'' (IdP sid)) others))"
  using fresh
  by (auto simp: on_connection_def Let_def Map_defs AList.update_conv' split: option.splits)

lemma tidy_connection:
  assumes t: "tidy s" and fresh: "\<not> Map_has (devices s) sid" and ip: "ip \<noteq> []"
    and c: "on_connection s sid ip now = Inr (s', out)"
  shows "tidy s'"
proof -
  let ?g = "getNetworkGroup ip"
  let ?old = "case Map_get (ipGroups s) ?g of None \<Rightarrow> [] | Some ms \<Rightarrow> ms"
  have gne: "?g \<noteq> []" using ip by (rule group_nonempty)
  have s': "s' = \<lparr>devices = Map_set (devices s) sid (new_device sid now ?g),
               ipGroups = Map_set (ipGroups s) ?g (Set_add ?old sid)\<rparr>"
    using c unfolding on_connection_fresh [OF fresh] by (simp add: Let_def)
  let ?D = "Map_set (devices s) sid (new_device sid now ?g)"
  let ?G = "Map_set (ipGroups s) ?g (Set_add ?old sid)"
  have dev': "Map_get ?D j = (if j = sid then Some (new_device sid now ?g) else Map_get (devices s) j)" for j
    by (simp add: Map_defs AList.update_conv')
  have grp': "Map_get ?G g = (if g = ?g then Some (Set_add ?old sid) else Map_get (ipGroups s) g)" for g
    by (simp add: Map_defs AList.update_conv')
  have nosid: "Map_get (devices s) sid = None"
    using fresh by (simp add: Map_defs)
  have old_set: "set ?old = {i. \<exists>e. Map_get (devices s) i = Some e \<and> groupKey e = Some ?g}"
  proof (cases "Map_get (ipGroups s) ?g")
    case None
    have "\<not> (\<exists>e. Map_get (devices s) i = Some e \<and> groupKey e = Some ?g)" for i
      using tidy_member [OF t, of i _ ?g] None by auto
    with None show ?thesis by simp
  next
    case (Some ms)
    with tidyD_group [OF t Some] show ?thesis by simp
  qed
  have old_distinct: "distinct ?old"
  proof (cases "Map_get (ipGroups s) ?g")
    case None
    then show ?thesis by simp
  next
    case (Some ms)
    with tidyD_group [OF t Some] show ?thesis by simp
  qed
  have c1: "distinct (map fst ?D)"
    using t by (simp add: tidy_def Map_defs AList.distinct_update)
  have c3: "distinct (map fst ?G)"
    using t by (simp add: tidy_def Map_defs AList.distinct_update)
  have c2: "id_dev e = j \<and>
        (\<exists>g members. groupKey e = Some g \<and> g \<noteq> [] \<and> Map_get ?G g = Some members)"
    if a: "Map_get ?D j = Some e" for j e
  proof (cases "j = sid")
    case True
    with a have "e = new_device sid now ?g" by (simp add: dev')
    with True gne show ?thesis by (simp add: new_device_sel grp')
  next
    case False
    with a have "Map_get (devices s) j = Some e" by (simp add: dev')
    with tidyD_record [OF t] show ?thesis by (fastforce simp: grp')
  qed
  have c4: "distinct members \<and> members \<noteq> [] \<and>
        set members = {i. \<exists>e. Map_get ?D i = Some e \<and> groupKey e = Some g}"
    if a: "Map_get ?G g = Some members" for g members
  proof (cases "g = ?g")
    case True
    with a have m: "members = Set_add ?old sid" by (simp add: grp')
    have "distinct members" using old_distinct by (simp add: m distinct_Set_add)
    moreover have "members \<noteq> []" by (simp add: m Set_add_nonempty)
    moreover have "set members = {i. \<exists>e. Map_get ?D i = Some e \<and> groupKey e = Some g}"
      unfolding m set_Set_add old_set True
      by (auto simp: dev' new_device_sel)
    ultimately show ?thesis by simp
  next
    case False
    with a have old: "Map_get (ipGroups s) g = Some members" by (simp add: grp')
    have "{i. \<exists>e. Map_get (devices s) i = Some e \<and> groupKey e = Some g} =
          {i. \<exists>e. Map_get ?D i = Some e \<and> groupKey e = Some g}"
      using False nosid by (auto simp: dev' new_device_sel)
    with tidyD_group [OF t old] show ?thesis by simp
  qed
  show ?thesis
    unfolding s' tidy_def using c1 c2 c3 c4 by simp
qed

lemma cleanup_entry_expired:
  assumes "Map_get (devices s) i = Some d" and "now - lastSeen d > 30000"
  shows "cleanup_entry now (i, d) (s, out) =
           (fst (on_disconnect s i), out @ snd (on_disconnect s i))"
  using assms
  by (auto simp: cleanup_entry_def on_disconnect_def split: option.splits prod.splits)

lemma cleanup_entry_alive:
  "\<not> now - lastSeen d > 30000 \<Longrightarrow> cleanup_entry now (i, d) (s, out) = (s, out)"
  by (simp add: cleanup_entry_def)

lemma devices_on_disconnect:
  "Map_get (devices (fst (on_disconnect s i))) j = (if j = i then None else Map_get (devices s) j)"
  by (simp add: on_disconnect_state Map_defs AList.delete_conv')

lemma tidy_cleanup_fold:
  assumes "tidy s" and "distinct (map fst es)"
    and "\<forall>(i, d) \<in> set es. Map_get (devices s) i = Some d"
  shows "tidy (fst (fold (cleanup_entry now) es (s, out)))"
  using assms
proof (induction es arbitrary: s out)
  case Nil
  then show ?case by simp
next
  case (Cons e es)
  obtain i d where e: "e = (i, d)" by (cases e)
  from Cons.prems e have cur: "Map_get (devices s) i = Some d"
    and rest: "\<forall>(j, x) \<in> set es. Map_get (devices s) j = Some x"
    and dist: "distinct (map fst es)" and fresh: "i \<notin> fst ` set es"
    by auto
  show ?case
  proof (cases "now - lastSeen d > 30000")
    case True
    let ?s1 = "fst (on_disconnect s i)"
    have t1: "tidy ?s1" using Cons.prems(1) by (rule tidy_disconnect)
    have "\<forall>(j, x) \<in> set es. Map_get (devices ?s1) j = Some x"
      using rest fresh by (force simp: devices_on_disconnect)
    from Cons.IH [OF t1 dist this] show ?thesis
      by (simp add: e cleanup_entry_expired [OF cur True])
  next
    case False
    from Cons.IH [OF Cons.prems(1) dist rest] show ?thesis
      by (simp add: e cleanup_entry_alive [OF False])
  qed
qed

lemma entries_current:
  "distinct (map fst m) \<Longrightarrow> \<forall>(i, d) \<in> set m. Map_get m i = Some d"
  by (auto simp: Map_get_def)

lemma tidy_cleanup: "tidy s \<Longrightarrow> tidy (fst (cleanupDevices s now))"
  unfolding cleanupDevices_def
  by (rule tidy_cleanup_fold) (auto simp: tidy_def entries_current)

lemma tidy_step:
  assumes "tidy s" and "orderly s ev" and "step s ev = Inr (s', out)"
  shows "tidy s'"
proof (cases ev)
  case (Connection sid ip now)
  with assms show ?thesis by (auto intro: tidy_connection)
next
  case (Heartbeat sid now)
  with assms show ?thesis by (auto intro: tidy_heartbeat)
next
  case (DeviceInfoEv sid ty ic nm)
  with assms show ?thesis by (auto intro: tidy_device_info)
next
  case (Disconnect sid)
  with assms tidy_disconnect [of s sid] show ?thesis by auto
next
  case (Cleanup now)
  with assms tidy_cleanup [of s now] show ?thesis by auto
qed (use assms in auto)

lemma orderly_reachable: "reachable_orderly w \<Longrightarrow> reachable w"
  by (induction rule: reachable_orderly.induct) (auto intro: reachable.intros)

lemma reachable_orderly_tidy: "reachable_orderly w \<Longrightarrow> tidy (server w)"
proof (induction rule: reachable_orderly.induct)
  case orderly_start
  show ?case by (simp add: tidy_def world0_def initial_def Map_defs)
next
  case (orderly_next w ev w' out)
  from orderly_next.hyps(3) obtain s' where "step (server w) ev = Inr (s', out)" "server w' = s'"
    by (auto simp: world_step_def split: sum.splits)
  with orderly_next.IH orderly_next.hyps(2) show ?case
    using tidy_step by blast
qed

lemma one_matching_key:
  assumes "distinct (map fst xs)" and "(g, v) \<in> set xs"
    and "\<And>g' v'. (g', v') \<in> set xs \<Longrightarrow> P (g', v') \<longleftrightarrow> g' = g"
  shows "map fst (filter P xs) = [g]"
  using assms
proof (induction xs)
  case Nil
  then show ?case by simp
next
  case (Cons x xs)
  obtain g' v' where x: "x = (g', v')" by (cases x)
  show ?case
  proof (cases "g' = g")
    case True
    with Cons.prems x have "\<And>a b. (a, b) \<in> set xs \<Longrightarrow> \<not> P (a, b)"
      by (metis distinct.simps(2) fst_conv image_eqI list.set_intros(2) list.simps(9) set_map)
    then have "filter P xs = []" by (auto simp: filter_empty_conv)
    with True x Cons.prems(3) [of g' v'] show ?thesis by simp
  next
    case False
    with Cons.prems x have "(g, v) \<in> set xs" by auto
    moreover from Cons.prems have "distinct (map fst xs)" by simp
    ultimately have "map fst (filter P xs) = [g]"
      using Cons.IH Cons.prems(3) by simp
    with False x Cons.prems(3) [of g' v'] show ?thesis by simp
  qed
qed

lemma tidy_consistent:
  assumes t: "tidy s"
  shows "consistent s"
proof -
  have dd: "distinct (map fst (devices s))" and dg: "distinct (map fst (ipGroups s))"
    using t by (simp_all add: tidy_def)
  have p1: "length (groups_of s i) = 1" if a: "(i, d) \<in> set (devices s)" for i d
  proof -
    from a dd have reg: "Map_get (devices s) i = Some d" by (simp add: Map_get_def)
    from tidyD_record [OF t reg] obtain g where g: "groupKey d = Some g" by blast
    from tidy_member [OF t reg g] obtain ms where ms: "Map_get (ipGroups s) g = Some ms"
      and i_ms: "i \<in> set ms" by blast
    from ms have ent: "(g, ms) \<in> set (ipGroups s)" by (simp add: Map_get_def map_of_SomeD)
    have "(case (g', v') of (g, members) \<Rightarrow> i \<in> set members) \<longleftrightarrow> g' = g"
      if b: "(g', v') \<in> set (ipGroups s)" for g' v'
    proof -
      from b dg have l: "Map_get (ipGroups s) g' = Some v'" by (simp add: Map_get_def)
      show ?thesis
      proof
        assume "case (g', v') of (g, members) \<Rightarrow> i \<in> set members"
        then have "i \<in> set v'" by simp
        with tidyD_group [OF t l] reg g show "g' = g" by auto
      next
        assume "g' = g"
        with l ms i_ms show "case (g', v') of (g, members) \<Rightarrow> i \<in> set members" by simp
      qed
    qed
    from one_matching_key [OF dg ent this] show ?thesis
      by (simp add: groups_of_def)
  qed
  have p2: "set ms = set (ids_with_key s g) \<and> ms \<noteq> []" if a: "(g, ms) \<in> set (ipGroups s)" for g ms
  proof -
    from a dg have l: "Map_get (ipGroups s) g = Some ms" by (simp add: Map_get_def)
    have "set (ids_with_key s g) = {i. \<exists>d. Map_get (devices s) i = Some d \<and> groupKey d = Some g}"
      using dd by (force simp: ids_with_key_def Map_get_def dest: map_of_SomeD)
    with tidyD_group [OF t l] show ?thesis by simp
  qed
  show ?thesis
    unfolding consistent_def list_all_iff using p1 p2 by auto
qed

lemma reachable_orderly_consistent: "reachable_orderly w \<Longrightarrow> consistent (server w)"
  by (simp add: reachable_orderly_tidy tidy_consistent)

subsection \<open>A reused socket id\<close>

lemma group_of_8888: "getNetworkGroup ''8.8.8.8'' = ''8.8.8''"
  by (simp add: getNetworkGroup_cases startsWith_def matches_172_def)

lemma run_stale_trace: "run world0 stale_trace = Inr stale_world"
  by (simp add: stale_trace_def stale_world_def handler_defs Map_defs group_of_examples
      group_of_8888 List.map_filter_simps Let_def insert_commute)

text \<open>
  Claim C2 at a connection under an id that still has a record. The handler deletes the
  old record from \<^verbatim>\<open>devices\<close> but leaves the id in the set of its old group: after
  \<open>stale_trace\<close> the id \<open>s\<close> is in the sets of two groups, and the set of \<open>LAN-10\<close> is
  not the set of the ids whose record carries \<open>LAN-10\<close>. (On orderly runs the two maps
  stay consistent: \<open>reachable_orderly_consistent\<close>.)
\<close>

theorem C2_stale_id_breaks_the_index:
  "run world0 stale_trace = Inr stale_world \<and>
   Map_get (ipGroups (server stale_world)) ''LAN-10'' = Some [''s'', ''t''] \<and>
   ids_with_key (server stale_world) ''LAN-10'' = [''t''] \<and>
   groups_of (server stale_world) ''s'' = [''LAN-10'', ''8.8.8''] \<and>
   \<not> consistent (server stale_world)"
  by (simp add: run_stale_trace)
    (simp add: stale_world_def consistent_def groups_of_def ids_with_key_def Map_defs new_device_def)

subsection \<open>Counting the notices of a sweep\<close>

lemma cleanup_entry_parts:
  "cleanup_entry now (i, d) (s, out) =
     (if now - lastSeen d > 30000 then
        (case groupKey d of
           None \<Rightarrow> (s\<lparr>devices := Map_delete (devices s) i\<rparr>, out)
         | Some g \<Rightarrow>
             if g = [] then (s\<lparr>devices := Map_delete (devices s) i\<rparr>, out)
             else (\<lparr>devices = Map_delete (devices s) i,
                    ipGroups = fst (leave_group (ipGroups s) g i)\<rparr>,
                   out @ snd (leave_group (ipGroups s) g i)))
      else (s, out))"
  by (simp add: cleanup_entry_def split: prod.split option.split)

lemma removeAll_nonempty: "m \<in> set ms \<Longrightarrow> m \<noteq> i \<Longrightarrow> removeAll i ms \<noteq> []"
proof
  assume "m \<in> set ms" "m \<noteq> i"
  then have "m \<in> set (removeAll i ms)" by simp
  moreover assume "removeAll i ms = []"
  ultimately show False by (simp only: set_simps empty_iff)
qed

lemma leave_group_member:
  assumes "m \<noteq> i"
  shows "(\<exists>ms'. Map_get (fst (leave_group G g i)) g' = Some ms' \<and> m \<in> set ms') \<longleftrightarrow>
         (\<exists>ms. Map_get G g' = Some ms \<and> m \<in> set ms)"
proof (cases "g' = g")
  case False
  then show ?thesis by (simp add: leave_group_lookup)
next
  case True
  show ?thesis
  proof (cases "Map_get G g")
    case None
    with True show ?thesis by (simp add: leave_group_lookup)
  next
    case (Some ms)
    have "m \<in> set ms \<Longrightarrow> removeAll i ms \<noteq> []"
      using assms by (simp add: removeAll_nonempty)
    with True Some assms show ?thesis
      by (auto simp: leave_group_lookup)
  qed
qed

lemma leave_group_distinct:
  assumes "\<forall>g ms. Map_get G g = Some ms \<longrightarrow> distinct ms"
  shows "\<forall>g' ms'. Map_get (fst (leave_group G g i)) g' = Some ms' \<longrightarrow> distinct ms'"
  using assms
  by (auto simp: leave_group_lookup distinct_removeAll split: option.splits if_splits)

lemma count_list_distinct: "distinct xs \<Longrightarrow> count_list xs x = (if x \<in> set xs then 1 else 0)"
  by (induction xs) auto

lemma count_notices:
  assumes "distinct ms"
  shows "count_list (map (\<lambda>r. Emit (ToRoom r) k (IdP i)) ms) (Emit (ToRoom m) k (IdP e)) =
           (if i = e \<and> m \<in> set ms then 1 else 0)"
  using assms by (induction ms) auto

lemma count_leave_notices:
  assumes "\<forall>g ms. Map_get G g = Some ms \<longrightarrow> distinct ms"
  shows "count_list (snd (leave_group G g i)) (Emit (ToRoom m) ''device-left'' (IdP e)) =
           (if i = e \<and> m \<noteq> e \<and> (\<exists>ms. Map_get G g = Some ms \<and> m \<in> set ms) then 1 else 0)"
proof (cases "Map_get G g")
  case None
  then show ?thesis by (simp add: leave_group_notices)
next
  case (Some ms)
  with assms have "distinct (removeAll i ms)" by (simp add: distinct_removeAll)
  from count_notices [OF this, of "''device-left''" i m e] Some show ?thesis
    by (auto simp: leave_group_notices)
qed

lemma count_sweep:
  assumes "distinct (map fst es)"
    and "\<forall>g ms. Map_get (ipGroups s) g = Some ms \<longrightarrow> distinct ms"
    and "\<forall>d. (m, d) \<in> set es \<longrightarrow> \<not> now - lastSeen d > 30000"
  shows "count_list (snd (fold (cleanup_entry now) es (s, out)))
           (Emit (ToRoom m) ''device-left'' (IdP e)) =
         count_list out (Emit (ToRoom m) ''device-left'' (IdP e)) +
         (if \<exists>d g ms. (e, d) \<in> set es \<and> now - lastSeen d > 30000 \<and> groupKey d = Some g \<and>
               g \<noteq> [] \<and> Map_get (ipGroups s) g = Some ms \<and> m \<in> set ms \<and> m \<noteq> e
          then 1 else 0)"
  using assms
proof (induction es arbitrary: s out)
  case Nil
  show ?case by simp
next
  case (Cons x es)
  let ?x = "Emit (ToRoom m) ''device-left'' (IdP e)"
  obtain i d where x: "x = (i, d)" by (cases x)
  from Cons.prems(1) x have dist: "distinct (map fst es)" and fresh: "\<And>d'. (i, d') \<notin> set es"
    by (auto simp: image_iff)
  from Cons.prems(3) x have alive: "\<forall>d. (m, d) \<in> set es \<longrightarrow> \<not> now - lastSeen d > 30000"
    and mi: "now - lastSeen d > 30000 \<Longrightarrow> m \<noteq> i"
    by auto
  let ?N = "\<lambda>s es. \<exists>d g ms. (e, d) \<in> set es \<and> now - lastSeen d > 30000 \<and> groupKey d = Some g \<and>
               g \<noteq> [] \<and> Map_get (ipGroups s) g = Some ms \<and> m \<in> set ms \<and> m \<noteq> e"
  show ?case
  proof (cases "now - lastSeen d > 30000 \<and> (\<exists>g. groupKey d = Some g \<and> g \<noteq> [])")
    case False
    define s1 where "s1 = fst (cleanup_entry now (i, d) (s, out))"
    from False have st: "cleanup_entry now (i, d) (s, out) = (s1, out)"
      and g1: "ipGroups s1 = ipGroups s"
      unfolding s1_def by (auto simp: cleanup_entry_parts split: option.splits)
    have "?N s (x # es) \<longleftrightarrow> ?N s es"
      using False x fresh by auto
    with Cons.IH [OF dist _ alive, of s1 out] Cons.prems(2) g1 show ?thesis
      by (simp add: x st)
  next
    case True
    then obtain g where ex: "now - lastSeen d > 30000" and g: "groupKey d = Some g" "g \<noteq> []"
      by blast
    let ?G1 = "fst (leave_group (ipGroups s) g i)"
    let ?s1 = "\<lparr>devices = Map_delete (devices s) i, ipGroups = ?G1\<rparr>"
    let ?out1 = "out @ snd (leave_group (ipGroups s) g i)"
    have st: "cleanup_entry now (i, d) (s, out) = (?s1, ?out1)"
      using ex g by (simp add: cleanup_entry_parts)
    have d1: "\<forall>g ms. Map_get (ipGroups ?s1) g = Some ms \<longrightarrow> distinct ms"
      using leave_group_distinct [OF Cons.prems(2)] by simp
    have cnt: "count_list ?out1 ?x = count_list out ?x +
        (if i = e \<and> m \<noteq> e \<and> (\<exists>ms. Map_get (ipGroups s) g = Some ms \<and> m \<in> set ms) then 1 else 0)"
      by (simp add: count_leave_notices [OF Cons.prems(2)])
    have ih: "count_list (snd (fold (cleanup_entry now) es (?s1, ?out1))) ?x =
        count_list ?out1 ?x + (if ?N ?s1 es then 1 else 0)"
      by (rule Cons.IH [OF dist d1 alive])
    have key: "(if i = e \<and> m \<noteq> e \<and> (\<exists>ms. Map_get (ipGroups s) g = Some ms \<and> m \<in> set ms) then 1 else 0) +
        (if ?N ?s1 es then 1 else 0) = (if ?N s (x # es) then (1::nat) else 0)"
    proof (cases "i = e")
      case True
      with fresh have "\<not> ?N ?s1 es" by blast
      moreover have "?N s (x # es) \<longleftrightarrow>
          (m \<noteq> e \<and> (\<exists>ms. Map_get (ipGroups s) g = Some ms \<and> m \<in> set ms))"
        using True x fresh ex g by auto
      ultimately show ?thesis using True by simp
    next
      case False
      from mi [OF ex] have "m \<noteq> i" .
      then have same: "(\<exists>ms'. Map_get ?G1 g' = Some ms' \<and> m \<in> set ms') \<longleftrightarrow>
          (\<exists>ms. Map_get (ipGroups s) g' = Some ms \<and> m \<in> set ms)" for g'
        by (rule leave_group_member)
      have "?N ?s1 es \<longleftrightarrow> ?N s es"
        using same by (simp) blast
      moreover have "?N s (x # es) \<longleftrightarrow> ?N s es"
        using False x by auto
      ultimately show ?thesis using False by simp
    qed
    show ?thesis
      using ih cnt key by (simp add: x st)
  qed
qed

subsection \<open>What a sweep removes and whom it tells\<close>

lemma devices_sweep:
  assumes "distinct (map fst (devices s))"
  shows "devices (fst (cleanupDevices s now)) = filter (\<lambda>(i, d). \<not> expired now d) (devices s)"
proof -
  have "(\<exists>d'. (k, d') \<in> set (devices s) \<and> now - lastSeen d' > 30000) \<longleftrightarrow> expired now v"
    if "(k, v) \<in> set (devices s)" for k v
    using that assms by (auto simp: expired_def dest: eq_key_imp_eq_value)
  then show ?thesis
    unfolding cleanupDevices_def devices_cleanup_fold
    by (intro filter_cong) auto
qed

lemma sweep_keeps:
  assumes "distinct (map fst (devices s))" and "Map_get (devices s) i = Some d"
    and "\<not> expired now d"
  shows "Map_get (devices (fst (cleanupDevices s now))) i = Some d"
  unfolding devices_sweep [OF assms(1)] Map_get_def
  using assms(2,3) by (intro map_of_filter_in) (auto simp: Map_get_def)

lemma sweep_remaining:
  assumes "distinct (map fst (devices s))"
    and "Map_get (devices (fst (cleanupDevices s now))) i = Some d"
  shows "Map_get (devices s) i = Some d \<and> \<not> expired now d"
proof -
  from assms(2) have "(i, d) \<in> set (filter (\<lambda>(i, d). \<not> expired now d) (devices s))"
    unfolding devices_sweep [OF assms(1)] Map_get_def by (rule map_of_SomeD)
  with assms(1) show ?thesis by (simp add: Map_get_def)
qed

lemma absent_in_no_group:
  assumes t: "tidy s" and "\<not> Map_has (devices s) e"
  shows "groups_of s e = []"
proof -
  have dg: "distinct (map fst (ipGroups s))" using t by (simp add: tidy_def)
  have "e \<notin> set ms" if a: "(g, ms) \<in> set (ipGroups s)" for g ms
  proof -
    from a dg have "Map_get (ipGroups s) g = Some ms" by (simp add: Map_get_def)
    from tidyD_group [OF t this] assms(2) show ?thesis by (auto simp: Map_defs)
  qed
  then show ?thesis by (auto simp: groups_of_def filter_empty_conv)
qed

lemma leave_group_shrinks:
  assumes "Map_get (fst (leave_group G g i)) g' = Some ms'" and "m \<in> set ms'"
  shows "\<exists>ms. Map_get G g' = Some ms \<and> m \<in> set ms"
  using assms by (auto simp: leave_group_lookup split: if_splits option.splits)

lemma sweep_notices_sound:
  assumes "x \<in> set (snd (fold (cleanup_entry now) es (s, out)))"
  shows "x \<in> set out \<or>
         (\<exists>m e d g ms. x = Emit (ToRoom m) ''device-left'' (IdP e) \<and> (e, d) \<in> set es \<and>
            now - lastSeen d > 30000 \<and> groupKey d = Some g \<and> g \<noteq> [] \<and>
            Map_get (ipGroups s) g = Some ms \<and> m \<in> set ms \<and> m \<noteq> e)"
  using assms
proof (induction es arbitrary: s out)
  case Nil
  then show ?case by simp
next
  case (Cons y es)
  obtain i d where y: "y = (i, d)" by (cases y)
  show ?case
  proof (cases "now - lastSeen d > 30000 \<and> (\<exists>g. groupKey d = Some g \<and> g \<noteq> [])")
    case False
    define s1 where "s1 = fst (cleanup_entry now (i, d) (s, out))"
    from False have st: "cleanup_entry now (i, d) (s, out) = (s1, out)"
      and g1: "ipGroups s1 = ipGroups s"
      unfolding s1_def by (auto simp: cleanup_entry_parts split: option.splits)
    from Cons.prems have "x \<in> set (snd (fold (cleanup_entry now) es (s1, out)))"
      by (simp add: y st)
    from Cons.IH [OF this] consider (old) "x \<in> set out"
      | (later) m e d' g' ms' where "x = Emit (ToRoom m) ''device-left'' (IdP e)"
          "(e, d') \<in> set es" "now - lastSeen d' > 30000" "groupKey d' = Some g'" "g' \<noteq> []"
          "Map_get (ipGroups s1) g' = Some ms'" "m \<in> set ms'" "m \<noteq> e"
      by auto
    then show ?thesis
    proof cases
      case old
      then show ?thesis by simp
    next
      case later
      from later(2) have "(e, d') \<in> set (y # es)" by simp
      with later g1 show ?thesis by metis
    qed
  next
    case True
    then obtain g where ex: "now - lastSeen d > 30000" and g: "groupKey d = Some g" "g \<noteq> []"
      by blast
    let ?G1 = "fst (leave_group (ipGroups s) g i)"
    let ?s1 = "\<lparr>devices = Map_delete (devices s) i, ipGroups = ?G1\<rparr>"
    let ?notes = "snd (leave_group (ipGroups s) g i)"
    have st: "cleanup_entry now (i, d) (s, out) = (?s1, out @ ?notes)"
      using ex g by (simp add: cleanup_entry_parts)
    from Cons.prems have "x \<in> set (snd (fold (cleanup_entry now) es (?s1, out @ ?notes)))"
      by (simp add: y st)
    from Cons.IH [OF this] consider (old) "x \<in> set out" | (new) "x \<in> set ?notes"
      | (later) m e d' g' ms' where "x = Emit (ToRoom m) ''device-left'' (IdP e)"
          "(e, d') \<in> set es" "now - lastSeen d' > 30000" "groupKey d' = Some g'" "g' \<noteq> []"
          "Map_get ?G1 g' = Some ms'" "m \<in> set ms'" "m \<noteq> e"
      by auto
    then show ?thesis
    proof cases
      case old
      then show ?thesis by simp
    next
      case new
      then have "\<exists>ms. Map_get (ipGroups s) g = Some ms \<and>
          x \<in> set (map (\<lambda>m. Emit (ToRoom m) ''device-left'' (IdP i)) (removeAll i ms))"
        by (cases "Map_get (ipGroups s) g") (simp_all add: leave_group_notices)
      then obtain ms m where "Map_get (ipGroups s) g = Some ms" "m \<in> set ms" "m \<noteq> i"
        "x = Emit (ToRoom m) ''device-left'' (IdP i)"
        by auto
      with ex g y show ?thesis by auto
    next
      case later
      from leave_group_shrinks [OF later(6,7)] obtain ms where
        "Map_get (ipGroups s) g' = Some ms" "m \<in> set ms" by blast
      with later y show ?thesis by auto
    qed
  qed
qed

lemma count_deliveries:
  "count_list (deliveries socks out) (r, k, p) =
     (if r \<in> socks then count_list out (Emit (ToRoom r) k p) else 0) +
     count_list out (Emit (ToSocket r) k p)"
proof (induction out)
  case Nil
  show ?case by (simp add: deliveries_def)
next
  case (Cons x out)
  obtain dst k' p' where x: "x = Emit dst k' p'" by (cases x)
  from Cons show ?case
    by (cases dst) (auto simp: x deliveries_def)
qed

lemma sweep_emits_rooms:
  "Emit (ToSocket r) k p \<notin> set (snd (cleanupDevices s now))"
  using sweep_notices_sound [of "Emit (ToSocket r) k p" now "devices s" s "[]"]
  by (auto simp: cleanupDevices_def)

lemma sweep_count_remaining:
  assumes t: "tidy s" and e: "Map_get (devices s) e = Some d" "expired now d"
    and m: "Map_get (devices (fst (cleanupDevices s now))) m = Some dm" "groupKey dm = groupKey d"
  shows "count_list (snd (cleanupDevices s now)) (Emit (ToRoom m) ''device-left'' (IdP e)) = 1"
proof -
  have dd: "distinct (map fst (devices s))" using t by (simp add: tidy_def)
  from sweep_remaining [OF dd m(1)] have m_s: "Map_get (devices s) m = Some dm"
    and m_alive: "\<not> expired now dm" by simp_all
  from m_alive e have me: "m \<noteq> e" using m_s by auto
  from tidyD_record [OF t e(1)] obtain g where g: "groupKey d = Some g" "g \<noteq> []" by blast
  from tidy_member [OF t m_s] m(2) g obtain ms where ms: "Map_get (ipGroups s) g = Some ms"
    "m \<in> set ms" by auto
  have c1: "\<forall>g ms. Map_get (ipGroups s) g = Some ms \<longrightarrow> distinct ms"
    using tidyD_group [OF t] by blast
  have c2: "\<forall>d'. (m, d') \<in> set (devices s) \<longrightarrow> \<not> now - lastSeen d' > 30000"
  proof (intro allI impI)
    fix d'
    assume "(m, d') \<in> set (devices s)"
    with dd have "Map_get (devices s) m = Some d'" by (simp add: Map_get_def)
    with m_s have "d' = dm" by simp
    with m_alive show "\<not> now - lastSeen d' > 30000" by (simp add: expired_def)
  qed
  have "(e, d) \<in> set (devices s)"
    using e(1) by (simp add: Map_get_def map_of_SomeD)
  with e(2) g ms me have
    "\<exists>d g ms. (e, d) \<in> set (devices s) \<and> now - lastSeen d > 30000 \<and> groupKey d = Some g \<and>
       g \<noteq> [] \<and> Map_get (ipGroups s) g = Some ms \<and> m \<in> set ms \<and> m \<noteq> e"
    unfolding expired_def by blast
  with count_sweep [OF dd c1 c2, of "[]" e] show ?thesis
    by (simp add: cleanupDevices_def)
qed

subsection \<open>Rosters\<close>

lemma set_map_filter: "set (List.map_filter f xs) = {y. \<exists>x \<in> set xs. f x = Some y}"
  by (induction xs) (auto simp: List.map_filter_simps split: option.splits)

lemma rosters_id_notes: "rosters (map (\<lambda>i. Emit (ToRoom i) k (IdP x)) ms) = []"
  by (induction ms) auto

lemma rosters_update_notes:
  "rosters (map (\<lambda>i. Emit (ToRoom i) k (DeviceInfoUpdateP a b c d)) ms) = []"
  by (induction ms) auto

lemma rosters_append: "rosters (xs @ ys) = rosters xs @ rosters ys"
  by (induction xs rule: rosters.induct) auto

lemma rosters_leave: "rosters (snd (leave_group G g i)) = []"
  by (simp add: leave_group_notices rosters_id_notes split: option.split)

lemma rosters_sweep_fold:
  "rosters (snd (fold (cleanup_entry now) es (s, out))) = rosters out"
proof (induction es arbitrary: s out)
  case Nil
  show ?case by simp
next
  case (Cons x es)
  obtain i d where x: "x = (i, d)" by (cases x)
  obtain s1 out1 where st: "cleanup_entry now (i, d) (s, out) = (s1, out1)"
    by (cases "cleanup_entry now (i, d) (s, out)")
  then have "rosters out1 = rosters out"
    by (auto simp: cleanup_entry_parts rosters_append rosters_leave split: if_splits option.splits)
  with Cons.IH [of s1 out1] show ?case by (simp add: x st)
qed

lemma on_disconnect_notices:
  "snd (on_disconnect s sid) =
     (case Map_get (devices s) sid of
        None \<Rightarrow> []
      | Some d \<Rightarrow>
          (case groupKey d of
             None \<Rightarrow> []
           | Some g \<Rightarrow> if g = [] then [] else snd (leave_group (ipGroups s) g sid)))"
  by (simp add: on_disconnect_def split: option.split prod.split)

lemma no_connection_of_Cons:
  "no_connection_of e (ev # evs) \<Longrightarrow> (\<forall>ip t. ev \<noteq> Connection e ip t) \<and> no_connection_of e evs"
  by (cases ev) auto

lemma rosters_no_connection:
  assumes "step s ev = Inr (s', out)" and "\<forall>sid ip t. ev \<noteq> Connection sid ip t"
  shows "rosters out = []"
proof (cases ev)
  case (DeviceInfoEv sid ty ic nm)
  with assms(1) show ?thesis
    by (auto simp: on_device_info_def Let_def rosters_update_notes split: option.splits if_splits)
next
  case (Disconnect sid)
  with assms(1) have "out = snd (on_disconnect s sid)" by simp
  then show ?thesis
    by (simp add: on_disconnect_notices rosters_leave split: option.split)
next
  case (Cleanup now)
  with assms(1) rosters_sweep_fold [of now "devices s" s "[]"] show ?thesis
    by (auto simp: cleanupDevices_def)
qed (use assms in \<open>auto simp: on_send_message_def on_file_transfer_request_def
      on_file_transfer_response_def on_file_data_def on_cancel_transfer_def on_signal_def
      on_p2p_failed_def\<close>)

lemma roster_sound:
  assumes t: "tidy s" and fresh: "\<not> Map_has (devices s) sid"
    and c: "on_connection s sid ip now = Inr (s', out)" and r: "r \<in> set (rosters out)"
  shows "Map_get (devices s) (id_dev r) = Some r \<and> groupKey r = Some (getNetworkGroup ip) \<and>
         id_dev r \<noteq> sid"
proof -
  let ?g = "getNetworkGroup ip"
  let ?old = "case Map_get (ipGroups s) ?g of None \<Rightarrow> [] | Some ms \<Rightarrow> ms"
  let ?others = "filter (\<lambda>i. i \<noteq> sid) (Set_add ?old sid)"
  from c r have "r \<in> set (List.map_filter (Map_get (devices s)) ?others)"
    unfolding on_connection_fresh [OF fresh] by (auto simp: Let_def rosters_id_notes)
  then obtain j where j: "j \<in> set ?others" "Map_get (devices s) j = Some r"
    by (auto simp: set_map_filter)
  from j(1) have js: "j \<noteq> sid" and jo: "j \<in> set ?old"
    by (auto simp: set_Set_add)
  from jo obtain ms where ms: "Map_get (ipGroups s) ?g = Some ms" "j \<in> set ms"
    by (cases "Map_get (ipGroups s) ?g") auto
  from tidyD_group [OF t ms(1)] ms(2) j(2) have "groupKey r = Some ?g" by auto
  moreover from tidyD_record [OF t j(2)] have "id_dev r = j" by simp
  ultimately show ?thesis using j(2) js by simp
qed

lemma absent_stays_absent:
  assumes "step s ev = Inr (s', out)" and "\<not> Map_has (devices s) e"
    and "\<forall>ip t. ev \<noteq> Connection e ip t"
  shows "\<not> Map_has (devices s') e"
proof (cases ev)
  case (Connection sid ip now)
  with assms show ?thesis by (auto simp: has_connection)
next
  case (Heartbeat sid now)
  with assms show ?thesis by (auto simp: has_heartbeat)
next
  case (DeviceInfoEv sid ty ic nm)
  with assms show ?thesis by (auto simp: has_device_info)
next
  case (Disconnect sid)
  with assms(1) have "s' = fst (on_disconnect s sid)" by simp
  with assms(2) show ?thesis by (simp add: has_disconnect)
next
  case (Cleanup now)
  with assms(1) have "s' = fst (cleanupDevices s now)" by simp
  with assms(2) has_cleanup show ?thesis by blast
qed (use assms in auto)

lemma world_step_server:
  "world_step w ev = Inr (w', out) \<Longrightarrow> step (server w) ev = Inr (server w', out)"
  by (auto simp: world_step_def split: sum.splits)

lemma later_rosters_exclude:
  assumes "tidy (server w)" and "\<not> Map_has (devices (server w)) e"
    and "orderly_run w evs" and "no_connection_of e evs"
  shows "e \<notin> id_dev ` set (later_rosters w evs)"
  using assms
proof (induction evs arbitrary: w)
  case Nil
  show ?case by simp
next
  case (Cons ev evs)
  show ?case
  proof (cases "world_step w ev")
    case (Inl err)
    then show ?thesis by simp
  next
    case (Inr p)
    obtain w' out where p: "p = (w', out)" by (cases p)
    from Inr p have st: "step (server w) ev = Inr (server w', out)"
      by (simp add: world_step_server)
    from Cons.prems(3) Inr p have ord: "orderly (server w) ev" and run': "orderly_run w' evs"
      by simp_all
    have t': "tidy (server w')" using Cons.prems(1) ord st by (rule tidy_step)
    have noc: "\<forall>ip t. ev \<noteq> Connection e ip t" and noc': "no_connection_of e evs"
      using no_connection_of_Cons [OF Cons.prems(4)] by simp_all
    have abs': "\<not> Map_has (devices (server w')) e"
      using st Cons.prems(2) noc by (rule absent_stays_absent)
    have here: "e \<notin> id_dev ` set (rosters out)"
    proof (cases "\<exists>sid ip t. ev = Connection sid ip t")
      case False
      with st have "rosters out = []" by (intro rosters_no_connection) auto
      then show ?thesis by simp
    next
      case True
      then obtain sid ip t where ev: "ev = Connection sid ip t" by blast
      from ord ev have fresh: "\<not> Map_has (devices (server w)) sid" by simp
      from st ev have c: "on_connection (server w) sid ip t = Inr (server w', out)" by simp
      show ?thesis
      proof
        assume "e \<in> id_dev ` set (rosters out)"
        then obtain r where "r \<in> set (rosters out)" "id_dev r = e" by auto
        with roster_sound [OF Cons.prems(1) fresh c] have "Map_get (devices (server w)) e = Some r"
          by auto
        with Cons.prems(2) show False by (simp add: Map_defs)
      qed
    qed
    from Cons.IH [OF t' abs' run' noc'] here show ?thesis
      by (auto simp: Inr p)
  qed
qed

subsection \<open>A socket that keeps its record\<close>

lemma step_total_tidy:
  assumes "tidy s"
  shows "\<exists>s' out. step s ev = Inr (s', out)"
proof (cases ev)
  case (Connection sid ip now)
  then show ?thesis using on_connection_total by simp
next
  case (DeviceInfoEv sid ty ic nm)
  show ?thesis
  proof (cases "Map_get (devices s) sid")
    case None
    with DeviceInfoEv show ?thesis by (simp add: on_device_info_absent)
  next
    case (Some d)
    from tidyD_record [OF assms Some] obtain g ms where
      "groupKey d = Some g" "g \<noteq> []" "Map_get (ipGroups s) g = Some ms" by blast
    with Some DeviceInfoEv show ?thesis by (simp add: on_device_info_present)
  qed
next
  case (Disconnect sid)
  then show ?thesis by (cases "on_disconnect s sid") simp
next
  case (Cleanup now)
  then show ?thesis by (cases "cleanupDevices s now") simp
qed simp_all

lemma world_step_total_tidy:
  assumes "tidy (server w)"
  shows "\<exists>w' out. world_step w ev = Inr (w', out)"
  using step_total_tidy [OF assms, of ev] by (auto simp: world_step_def)

lemma record_after_step:
  assumes t: "tidy s" and ord: "orderly s ev" and st: "step s ev = Inr (s', out)"
    and reg: "Map_get (devices s) i = Some d"
    and nd: "ev \<noteq> Disconnect i"
    and sw: "\<And>now. ev = Cleanup now \<Longrightarrow> \<not> expired now d"
  shows "\<exists>d'. Map_get (devices s') i = Some d' \<and>
           lastSeen d' = (case ev of Heartbeat j now \<Rightarrow> if j = i then now else lastSeen d
                          | _ \<Rightarrow> lastSeen d)"
proof (cases ev)
  case (Connection sid ip now)
  with ord reg have "sid \<noteq> i" by (auto simp: Map_defs)
  with Connection st reg show ?thesis
    by (simp add: on_connection_devices)
next
  case (Heartbeat sid now)
  with st reg show ?thesis
    by (auto simp: on_heartbeat_def Map_defs AList.update_conv' split: option.splits)
next
  case (DeviceInfoEv sid ty ic nm)
  with st have "on_device_info s sid ty ic nm = Inr (s', out)" by simp
  from on_device_info_state [OF this] DeviceInfoEv reg show ?thesis
    by (auto simp: Map_defs AList.update_conv' split: option.splits)
next
  case (Disconnect sid)
  with nd have "sid \<noteq> i" by simp
  moreover from Disconnect st have "s' = fst (on_disconnect s sid)" by simp
  ultimately show ?thesis using reg Disconnect by (simp add: devices_on_disconnect)
next
  case (Cleanup now)
  with st have s': "s' = fst (cleanupDevices s now)" by simp
  have "distinct (map fst (devices s))" using t by (simp add: tidy_def)
  from sweep_keeps [OF this reg sw [OF Cleanup]] s' Cleanup show ?thesis by simp
qed (use st reg in auto)

lemma kept_alive_run:
  assumes "gap \<le> 30000" and "tidy (server w)" and "orderly_run w evs"
    and "Map_get (devices (server w)) i = Some d" and "kept_alive gap i (lastSeen d) evs"
  shows "\<exists>w' d'. run w evs = Inr w' \<and> Map_get (devices (server w')) i = Some d'"
  using assms(2-)
proof (induction evs arbitrary: w d)
  case Nil
  then show ?case by simp
next
  case (Cons ev evs)
  from world_step_total_tidy [OF Cons.prems(1), of ev] obtain w1 out
    where ws: "world_step w ev = Inr (w1, out)" by blast
  then have st: "step (server w) ev = Inr (server w1, out)" by (rule world_step_server)
  from Cons.prems(2) ws have ord: "orderly (server w) ev" and run1: "orderly_run w1 evs"
    by simp_all
  have t1: "tidy (server w1)" using Cons.prems(1) ord st by (rule tidy_step)
  have nd: "ev \<noteq> Disconnect i" using Cons.prems(4) by auto
  have sw: "\<not> expired now d" if "ev = Cleanup now" for now
    using Cons.prems(4) that assms(1) by (simp add: expired_def)
  from record_after_step [OF Cons.prems(1) ord st Cons.prems(3) nd sw] obtain d1
    where d1: "Map_get (devices (server w1)) i = Some d1"
      and l1: "lastSeen d1 = (case ev of Heartbeat j now \<Rightarrow> if j = i then now else lastSeen d
                          | _ \<Rightarrow> lastSeen d)"
    by blast
  have "kept_alive gap i (lastSeen d1) evs"
    using Cons.prems(4) l1 by (cases ev) (auto split: if_splits)
  from Cons.IH [OF t1 run1 d1 this] ws show ?case by simp
qed

subsection \<open>The sweeper\<close>

lemma orderly_run_reachable:
  "reachable_orderly w \<Longrightarrow> orderly_run w evs \<Longrightarrow> run w evs = Inr w' \<Longrightarrow> reachable_orderly w'"
proof (induction evs arbitrary: w)
  case Nil
  then show ?case by simp
next
  case (Cons ev evs)
  then show ?case
    by (auto split: sum.splits intro: orderly_next)
qed

lemma orderly_lan_trace: "orderly_run world0 lan_trace"
  by (simp add: lan_trace_def handler_defs Map_defs group_of_examples
      List.map_filter_simps Let_def)

lemma reachable_orderly_lan_world: "reachable_orderly lan_world"
  using orderly_run_reachable [OF orderly_start orderly_lan_trace run_lan_trace] .

text \<open>
  The sweeper on orderly runs. Let the sweeper run at time \<open>now\<close> in a state reached
  by an orderly run. It removes from \<^verbatim>\<open>devices\<close> exactly the records with
  \<open>now - lastSeen > 30000\<close>, and the
  registry and the group index are consistent afterwards. An evicted id has no record
  and is in no group's set; every device that remains registered under the evicted
  device's group key receives exactly one \<^verbatim>\<open>device-left\<close> about it; and in whatever
  orderly events follow, as long as no socket connects under the evicted id again, no
  roster lists a record of that id. A record at most 20 seconds old survives the sweep
  unchanged; and a socket that does not disconnect, and whose latest heartbeat (or
  registration) is at most 20 seconds old at every sweep, has a record after any orderly
  run, which itself returns without an error.
\<close>

lemma sweeper_on_orderly_runs:
  assumes "reachable_orderly w" and "cleanupDevices (server w) now = (s', out)"
  shows
  "devices s' = filter (\<lambda>(i, d). \<not> expired now d) (devices (server w)) \<and>
   consistent s' \<and>
   (\<forall>e d. Map_get (devices (server w)) e = Some d \<and> expired now d \<longrightarrow>
      \<not> Map_has (devices s') e \<and> groups_of s' e = [] \<and>
      (\<forall>m dm. Map_get (devices s') m = Some dm \<and> groupKey dm = groupKey d \<longrightarrow>
         count_list (delivered w (Cleanup now)) (m, ''device-left'', IdP e) = 1) \<and>
      (\<forall>evs. orderly_run (w\<lparr>server := s'\<rparr>) evs \<and> no_connection_of e evs \<longrightarrow>
         e \<notin> id_dev ` set (later_rosters (w\<lparr>server := s'\<rparr>) evs))) \<and>
   (\<forall>i d. Map_get (devices (server w)) i = Some d \<and> now - lastSeen d \<le> 20000 \<longrightarrow>
      Map_get (devices s') i = Some d) \<and>
   (\<forall>i d evs. Map_get (devices (server w)) i = Some d \<and> orderly_run w evs \<and>
      kept_alive 20000 i (lastSeen d) evs \<longrightarrow>
      (\<exists>w2. run w evs = Inr w2 \<and> Map_has (devices (server w2)) i))"
proof -
  let ?s = "server w"
  have t: "tidy ?s" using assms(1) by (rule reachable_orderly_tidy)
  have dd: "distinct (map fst (devices ?s))" using t by (simp add: tidy_def)
  have s': "s' = fst (cleanupDevices ?s now)" and out: "out = snd (cleanupDevices ?s now)"
    using assms(2) by simp_all
  have t': "tidy s'" unfolding s' using t by (rule tidy_cleanup)
  have co: "connected w"
    using assms(1) orderly_reachable reachable_grouped_connected by blast
  have del: "delivered w (Cleanup now) = deliveries (sockets w) out"
    by (simp add: delivered_def world_step_def assms(2))
  have A: "devices s' = filter (\<lambda>(i, d). \<not> expired now d) (devices ?s)"
    unfolding s' using dd by (rule devices_sweep)
  have B: "consistent s'" using t' by (rule tidy_consistent)
  have C: "\<not> Map_has (devices s') e \<and> groups_of s' e = [] \<and>
      (\<forall>m dm. Map_get (devices s') m = Some dm \<and> groupKey dm = groupKey d \<longrightarrow>
         count_list (delivered w (Cleanup now)) (m, ''device-left'', IdP e) = 1) \<and>
      (\<forall>evs. orderly_run (w\<lparr>server := s'\<rparr>) evs \<and> no_connection_of e evs \<longrightarrow>
         e \<notin> id_dev ` set (later_rosters (w\<lparr>server := s'\<rparr>) evs))"
    if e: "Map_get (devices ?s) e = Some d \<and> expired now d" for e d
  proof (intro conjI allI impI)
    show gone: "\<not> Map_has (devices s') e"
      unfolding s' using e cleanup_evicts [of ?s e d now] by (simp add: expired_def)
    show "groups_of s' e = []" using t' gone by (rule absent_in_no_group)
    show "count_list (delivered w (Cleanup now)) (m, ''device-left'', IdP e) = 1"
      if m: "Map_get (devices s') m = Some dm \<and> groupKey dm = groupKey d" for m dm
    proof -
      from m have m1: "Map_get (devices (fst (cleanupDevices ?s now))) m = Some dm"
        and m2: "groupKey dm = groupKey d" by (simp_all add: s')
      from sweep_remaining [OF dd m1] have "Map_has (devices ?s) m" by (simp add: Map_defs)
      with co have "m \<in> sockets w" by (simp add: connected_def)
      moreover have "count_list out (Emit (ToRoom m) ''device-left'' (IdP e)) = 1"
        unfolding out by (rule sweep_count_remaining [OF t conjunct1 [OF e] conjunct2 [OF e] m1 m2])
      moreover have "count_list out (Emit (ToSocket m) ''device-left'' (IdP e)) = 0"
        unfolding out using sweep_emits_rooms by (simp add: count_list_0_iff)
      ultimately show ?thesis by (simp add: del count_deliveries)
    qed
    show "e \<notin> id_dev ` set (later_rosters (w\<lparr>server := s'\<rparr>) evs)"
      if "orderly_run (w\<lparr>server := s'\<rparr>) evs \<and> no_connection_of e evs" for evs
      using later_rosters_exclude [of "w\<lparr>server := s'\<rparr>" e evs] t' gone that by simp
  qed
  have D: "Map_get (devices s') i = Some d"
    if "Map_get (devices ?s) i = Some d \<and> now - lastSeen d \<le> 20000" for i d
    unfolding s' using dd that by (intro sweep_keeps) (auto simp: expired_def)
  have E: "\<exists>w2. run w evs = Inr w2 \<and> Map_has (devices (server w2)) i"
    if "Map_get (devices ?s) i = Some d \<and> orderly_run w evs \<and> kept_alive 20000 i (lastSeen d) evs"
    for i d evs
    using kept_alive_run [of 20000 w evs i d] t that by (auto simp: Map_defs)
  from A B C D E show ?thesis by blast
qed

lemma sweeper_on_orderly_runs_example:
  "devices (server swept_world) = [(''a'', new_device ''a'' 25000 ''LAN-10'')] \<and>
   consistent (server swept_world) \<and>
   \<not> Map_has (devices (server swept_world)) ''b'' \<and> groups_of (server swept_world) ''b'' = [] \<and>
   count_list (delivered lan_world (Cleanup 40000)) (''a'', ''device-left'', IdP ''b'') = 1 \<and>
   ''b'' \<notin> id_dev ` set (later_rosters swept_world [Connection ''c'' ''10.0.0.3'' 41000]) \<and>
   Map_get (devices (server swept_world)) ''a'' = Some (new_device ''a'' 25000 ''LAN-10'') \<and>
   (\<exists>w2. run lan_world [Cleanup 40000, Heartbeat ''a'' 45000, Cleanup 60000] = Inr w2 \<and>
      Map_has (devices (server w2)) ''a'')"
proof -
  let ?a = "new_device ''a'' 25000 ''LAN-10''"
  let ?b = "new_device ''b'' 0 ''LAN-10''"
  let ?later = "[Connection ''c'' ''10.0.0.3'' 41000]"
  let ?beat = "[Cleanup 40000, Heartbeat ''a'' 45000, Cleanup 60000]"
  note t = sweeper_on_orderly_runs [OF reachable_orderly_lan_world sweep_lan_server]
  have sw: "lan_world\<lparr>server := server swept_world\<rparr> = swept_world"
    by (simp add: lan_world_def swept_world_def)
  have hb: "Map_get (devices (server lan_world)) ''b'' = Some ?b \<and> expired 40000 ?b"
    by (simp add: lan_world_def Map_defs new_device_def expired_def)
  have ha: "Map_get (devices (server swept_world)) ''a'' = Some ?a \<and> groupKey ?a = groupKey ?b"
    by (simp add: swept_world_def Map_defs new_device_def)
  have hl: "orderly_run (lan_world\<lparr>server := server swept_world\<rparr>) ?later \<and>
      no_connection_of ''b'' ?later"
    unfolding sw
    by (simp add: swept_world_def handler_defs Map_defs group_of_examples
        List.map_filter_simps Let_def)
  have hk: "Map_get (devices (server lan_world)) ''a'' = Some ?a \<and> 40000 - lastSeen ?a \<le> 20000"
    by (simp add: lan_world_def Map_defs new_device_def)
  have hr: "Map_get (devices (server lan_world)) ''a'' = Some ?a \<and> orderly_run lan_world ?beat \<and>
      kept_alive 20000 ''a'' (lastSeen ?a) ?beat"
    by (simp add: lan_world_def handler_defs Map_defs)
  from t have "devices (server swept_world) =
      filter (\<lambda>(i, d). \<not> expired 40000 d) (devices (server lan_world))" by (rule conjunct1)
  then have c1: "devices (server swept_world) = [(''a'', ?a)]"
    by (simp add: lan_world_def new_device_def expired_def)
  from t have c2: "consistent (server swept_world)" by blast
  from t hb have ev: "\<not> Map_has (devices (server swept_world)) ''b'' \<and>
      groups_of (server swept_world) ''b'' = [] \<and>
      (\<forall>m dm. Map_get (devices (server swept_world)) m = Some dm \<and> groupKey dm = groupKey ?b \<longrightarrow>
         count_list (delivered lan_world (Cleanup 40000)) (m, ''device-left'', IdP ''b'') = 1) \<and>
      (\<forall>evs. orderly_run (lan_world\<lparr>server := server swept_world\<rparr>) evs \<and>
           no_connection_of ''b'' evs \<longrightarrow>
         ''b'' \<notin> id_dev ` set (later_rosters (lan_world\<lparr>server := server swept_world\<rparr>) evs))"
    by blast
  from ev ha have c3: "count_list (delivered lan_world (Cleanup 40000))
      (''a'', ''device-left'', IdP ''b'') = 1" by blast
  from ev hl have c4: "''b'' \<notin> id_dev ` set (later_rosters swept_world ?later)"
    unfolding sw by blast
  from t hk have c5: "Map_get (devices (server swept_world)) ''a'' = Some ?a" by blast
  from t hr have c6: "\<exists>w2. run lan_world ?beat = Inr w2 \<and> Map_has (devices (server w2)) ''a''"
    by blast
  from c1 c2 ev c3 c4 c5 c6 show ?thesis by simp
qed

subsection \<open>The sweeper after a reused socket id\<close>

lemma sweep_stale_server:
  "cleanupDevices (server stale_world) 40000 =
     (server stale_swept_world, [Emit (ToRoom ''s'') ''device-left'' (IdP ''t'')])"
  by (simp add: stale_world_def stale_swept_world_def handler_defs Map_defs Let_def)

lemma sweep_stale_world:
  "world_step stale_world (Cleanup 40000) =
     Inr (stale_swept_world, [Emit (ToRoom ''s'') ''device-left'' (IdP ''t'')])"
  by (simp add: world_step_def sweep_stale_server) (simp add: stale_world_def stale_swept_world_def)

text \<open>
  Claim C3 after a socket id was used twice. After \<open>stale_trace\<close> the sweeper runs at
  40 seconds, when the records of \<open>s\<close> and \<open>t\<close> are both expired. Both records are
  removed from \<^verbatim>\<open>devices\<close>, but the evicted id \<open>s\<close> stays in the group index, in the set
  of \<open>LAN-10\<close>, the group of its first connection; the two maps are not consistent
  afterwards; and the \<^verbatim>\<open>device-left\<close> about \<open>t\<close> of group \<open>LAN-10\<close> is delivered to \<open>s\<close>,
  whose record carried the key \<open>8.8.8\<close>. The sweeper does what it does on every run; the
  stale entry comes from the connection handler, which drops the old record of an id
  without taking the id out of the set of the old group. (On orderly runs the sweeper
  removes the evicted from both maps and notifies the remaining members of their groups
  only: \<open>sweeper_on_orderly_runs\<close>.)
\<close>

theorem C3_sweep_after_reused_id:
  "run world0 (stale_trace @ [Cleanup 40000]) = Inr stale_swept_world \<and>
   Map_get (devices (server stale_world)) ''s'' = Some (new_device ''s'' 5 ''8.8.8'') \<and>
   Map_get (devices (server stale_world)) ''t'' = Some (new_device ''t'' 0 ''LAN-10'') \<and>
   expired 40000 (new_device ''s'' 5 ''8.8.8'') \<and> expired 40000 (new_device ''t'' 0 ''LAN-10'') \<and>
   devices (server stale_swept_world) = [] \<and>
   ipGroups (server stale_swept_world) = [(''LAN-10'', [''s''])] \<and>
   groups_of (server stale_swept_world) ''s'' = [''LAN-10''] \<and>
   \<not> consistent (server stale_swept_world) \<and>
   delivered stale_world (Cleanup 40000) = [(''s'', ''device-left'', IdP ''t'')]"
proof -
  have r: "run world0 (stale_trace @ [Cleanup 40000]) = Inr stale_swept_world"
    by (simp add: run_append run_stale_trace sweep_stale_world)
  have d: "delivered stale_world (Cleanup 40000) = [(''s'', ''device-left'', IdP ''t'')]"
    by (simp add: delivered_def sweep_stale_world deliveries_def stale_swept_world_def)
  have s: "devices (server stale_swept_world) = [] \<and>
      ipGroups (server stale_swept_world) = [(''LAN-10'', [''s''])] \<and>
      groups_of (server stale_swept_world) ''s'' = [''LAN-10''] \<and>
      \<not> consistent (server stale_swept_world)"
    by (simp add: stale_swept_world_def consistent_def groups_of_def ids_with_key_def)
  have e: "Map_get (devices (server stale_world)) ''s'' = Some (new_device ''s'' 5 ''8.8.8'') \<and>
      Map_get (devices (server stale_world)) ''t'' = Some (new_device ''t'' 0 ''LAN-10'') \<and>
      expired 40000 (new_device ''s'' 5 ''8.8.8'') \<and> expired 40000 (new_device ''t'' 0 ''LAN-10'')"
    by (simp add: stale_world_def Map_defs expired_def new_device_def)
  from r d s e show ?thesis by simp
qed

subsection \<open>Group isolation\<close>

lemma mem_deliveries:
  "(r, k, p) \<in> set (deliveries socks out) \<Longrightarrow>
   Emit (ToRoom r) k p \<in> set out \<or> Emit (ToSocket r) k p \<in> set out"
proof (induction out)
  case Nil
  then show ?case by (simp add: deliveries_def)
next
  case (Cons x out)
  obtain dst k' p' where x: "x = Emit dst k' p'" by (cases x)
  from Cons show ?case
    by (cases dst) (auto simp: x deliveries_def split: if_splits)
qed

lemma roster_in_rosters:
  "Emit dst k (DeviceInfoP i ds) \<in> set out \<Longrightarrow> set ds \<subseteq> set (rosters out)"
  by (induction out rule: rosters.induct) auto

lemma delivered_step:
  "world_step w ev = Inr (w', out) \<Longrightarrow> delivered w ev = deliveries (sockets w') out"
  by (simp add: delivered_def)

lemma tidy_group_member_record:
  assumes "tidy s" and "Map_get (ipGroups s) g = Some ms" and "m \<in> set ms"
  shows "\<exists>d. Map_get (devices s) m = Some d \<and> groupKey d = Some g"
  using tidyD_group [OF assms(1,2)] assms(3) by auto

lemma connection_isolated:
  assumes t: "tidy s" and fresh: "\<not> Map_has (devices s) sid"
    and c: "on_connection s sid ip now = Inr (s', out)"
  shows "(\<forall>dst k i ds. Emit dst k (DeviceInfoP i ds) \<in> set out \<longrightarrow> dst = ToSocket i \<and> i = sid)"
    and "Map_get (devices s') sid = Some (new_device sid now (getNetworkGroup ip))"
    and "\<forall>dst k x. Emit dst k (IdP x) \<in> set out \<longrightarrow>
           k = ''device-joined'' \<and> x = sid \<and>
           (\<exists>r d. dst = ToRoom r \<and> Map_get (devices s') r = Some d \<and>
                  groupKey d = Some (getNetworkGroup ip))"
proof -
  let ?g = "getNetworkGroup ip"
  let ?old = "case Map_get (ipGroups s) ?g of None \<Rightarrow> [] | Some ms \<Rightarrow> ms"
  let ?others = "filter (\<lambda>i. i \<noteq> sid) (Set_add ?old sid)"
  have out: "out = Emit (ToSocket sid) ''device-info''
        (DeviceInfoP sid (List.map_filter (Map_get (devices s)) ?others))
      # map (\<lambda>i. Emit (ToRoom i) ''device-joined'' (IdP sid)) ?others"
    using c unfolding on_connection_fresh [OF fresh] by (simp add: Let_def)
  show "\<forall>dst k i ds. Emit dst k (DeviceInfoP i ds) \<in> set out \<longrightarrow> dst = ToSocket i \<and> i = sid"
    unfolding out by auto
  show "Map_get (devices s') sid = Some (new_device sid now ?g)"
    by (simp add: on_connection_devices [OF c])
  show "\<forall>dst k x. Emit dst k (IdP x) \<in> set out \<longrightarrow>
           k = ''device-joined'' \<and> x = sid \<and>
           (\<exists>r d. dst = ToRoom r \<and> Map_get (devices s') r = Some d \<and> groupKey d = Some ?g)"
  proof (intro allI impI)
    fix dst k x
    assume "Emit dst k (IdP x) \<in> set out"
    then obtain r where r: "dst = ToRoom r" "k = ''device-joined''" "x = sid" "r \<in> set ?others"
      unfolding out by auto
    from r(4) have rs: "r \<noteq> sid" and ro: "r \<in> set ?old" by (auto simp: set_Set_add)
    from ro obtain ms where ms: "Map_get (ipGroups s) ?g = Some ms" "r \<in> set ms"
      by (cases "Map_get (ipGroups s) ?g") auto
    from tidy_group_member_record [OF t ms] obtain d where
      "Map_get (devices s) r = Some d" "groupKey d = Some ?g" by blast
    with rs have "Map_get (devices s') r = Some d \<and> groupKey d = Some ?g"
      by (simp add: on_connection_devices [OF c])
    with r show "k = ''device-joined'' \<and> x = sid \<and>
           (\<exists>r d. dst = ToRoom r \<and> Map_get (devices s') r = Some d \<and> groupKey d = Some ?g)"
      by blast
  qed
qed

lemma leave_isolated:
  assumes t: "tidy s" and reg: "Map_get (devices s) sid = Some d" and key: "groupKey d = Some g"
    and x: "x \<in> set (snd (leave_group (ipGroups s) g sid))"
  shows "\<exists>m dm. x = Emit (ToRoom m) ''device-left'' (IdP sid) \<and>
           Map_get (devices s) m = Some dm \<and> groupKey dm = Some g"
proof -
  from x have "\<exists>ms. Map_get (ipGroups s) g = Some ms \<and>
      x \<in> set (map (\<lambda>m. Emit (ToRoom m) ''device-left'' (IdP sid)) (removeAll sid ms))"
    by (cases "Map_get (ipGroups s) g") (simp_all add: leave_group_notices)
  then obtain ms m where ms: "Map_get (ipGroups s) g = Some ms" "m \<in> set ms"
    and xm: "x = Emit (ToRoom m) ''device-left'' (IdP sid)" by auto
  from tidy_group_member_record [OF t ms] xm show ?thesis by blast
qed

lemma sweep_isolated:
  assumes t: "tidy s" and x: "x \<in> set (snd (cleanupDevices s now))"
  shows "\<exists>m e dm de. x = Emit (ToRoom m) ''device-left'' (IdP e) \<and>
           Map_get (devices s) m = Some dm \<and> Map_get (devices s) e = Some de \<and>
           groupKey dm = groupKey de"
proof -
  have dd: "distinct (map fst (devices s))" using t by (simp add: tidy_def)
  from sweep_notices_sound [of x now "devices s" s "[]"] x obtain m e d g ms where
    xm: "x = Emit (ToRoom m) ''device-left'' (IdP e)" and e: "(e, d) \<in> set (devices s)"
    and g: "groupKey d = Some g" and ms: "Map_get (ipGroups s) g = Some ms" "m \<in> set ms"
    by (auto simp: cleanupDevices_def)
  from e dd have "Map_get (devices s) e = Some d" by (simp add: Map_get_def)
  moreover from tidy_group_member_record [OF t ms] obtain dm where
    "Map_get (devices s) m = Some dm" "groupKey dm = Some g" by blast
  ultimately show ?thesis using xm g by auto
qed

lemma step_id_notes:
  assumes t: "tidy s" and ord: "orderly s ev" and st: "step s ev = Inr (s', out)"
    and x: "Emit dst k (IdP x) \<in> set out"
  shows "(k = ''device-joined'' \<and>
          (\<exists>r dr dx. dst = ToRoom r \<and> Map_get (devices s') r = Some dr \<and>
             Map_get (devices s') x = Some dx \<and> groupKey dr = groupKey dx)) \<or>
         (k = ''device-left'' \<and>
          (\<exists>r dr dx. dst = ToRoom r \<and> Map_get (devices s) r = Some dr \<and>
             Map_get (devices s) x = Some dx \<and> groupKey dr = groupKey dx))"
proof (cases ev)
  case (Connection sid ip now)
  with ord st have fresh: "\<not> Map_has (devices s) sid"
    and c: "on_connection s sid ip now = Inr (s', out)" by simp_all
  from connection_isolated(2,3) [OF t fresh c] x show ?thesis
    by (auto simp: new_device_sel)
next
  case (DeviceInfoEv sid ty ic nm)
  with st x show ?thesis
    by (auto simp: on_device_info_def Let_def split: option.splits if_splits)
next
  case (Disconnect sid)
  with st have out: "out = snd (on_disconnect s sid)" by simp
  show ?thesis
  proof (cases "Map_get (devices s) sid")
    case None
    with x out show ?thesis by (simp add: on_disconnect_notices)
  next
    case (Some d)
    from tidyD_record [OF t Some] obtain g where g: "groupKey d = Some g" "g \<noteq> []" by blast
    with x out Some have "Emit dst k (IdP x) \<in> set (snd (leave_group (ipGroups s) g sid))"
      by (simp add: on_disconnect_notices)
    from leave_isolated [OF t Some g(1) this] Some g show ?thesis by auto
  qed
next
  case (Cleanup now)
  with st x have "Emit dst k (IdP x) \<in> set (snd (cleanupDevices s now))" by auto
  from sweep_isolated [OF t this] show ?thesis by auto
qed (use st x in \<open>auto simp: on_send_message_def on_file_transfer_request_def
      on_file_transfer_response_def on_file_data_def on_cancel_transfer_def on_signal_def
      on_p2p_failed_def\<close>)

text \<open>
  Group isolation on orderly runs. Take any state reached by an orderly run and any
  orderly event handled in it. Every record in a roster the event sends is the stored record of a registered
  device, the roster goes to the socket that has just registered, and the record carries
  the same group key as that socket's new record. Whoever receives a \<^verbatim>\<open>device-joined\<close>
  about an id is registered after the event under the same group key as that id; whoever
  receives a \<^verbatim>\<open>device-left\<close> about an id was registered before the event under the same
  group key as that id. So a device registered under one key never shows in the roster
  of, nor is announced to, a device registered under another key.
\<close>

lemma group_isolation_on_orderly_runs:
  assumes "reachable_orderly w" and "orderly (server w) ev" and "world_step w ev = Inr (w', out)"
  shows
  "(\<forall>dst k i ds r. Emit dst k (DeviceInfoP i ds) \<in> set out \<and> r \<in> set ds \<longrightarrow>
      dst = ToSocket i \<and> Map_get (devices (server w)) (id_dev r) = Some r \<and>
      (\<exists>d. Map_get (devices (server w')) i = Some d \<and> groupKey r = groupKey d)) \<and>
   (\<forall>r x. (r, ''device-joined'', IdP x) \<in> set (delivered w ev) \<longrightarrow>
      (\<exists>dr dx. Map_get (devices (server w')) r = Some dr \<and>
         Map_get (devices (server w')) x = Some dx \<and> groupKey dr = groupKey dx)) \<and>
   (\<forall>r x. (r, ''device-left'', IdP x) \<in> set (delivered w ev) \<longrightarrow>
      (\<exists>dr dx. Map_get (devices (server w)) r = Some dr \<and>
         Map_get (devices (server w)) x = Some dx \<and> groupKey dr = groupKey dx))"
proof -
  have t: "tidy (server w)" using assms(1) by (rule reachable_orderly_tidy)
  have st: "step (server w) ev = Inr (server w', out)"
    using assms(3) by (rule world_step_server)
  have del: "delivered w ev = deliveries (sockets w') out"
    using assms(3) by (rule delivered_step)
  have A: "dst = ToSocket i \<and> Map_get (devices (server w)) (id_dev r) = Some r \<and>
      (\<exists>d. Map_get (devices (server w')) i = Some d \<and> groupKey r = groupKey d)"
    if a: "Emit dst k (DeviceInfoP i ds) \<in> set out \<and> r \<in> set ds" for dst k i ds r
  proof -
    from a roster_in_rosters have rr: "r \<in> set (rosters out)" by blast
    have "\<exists>sid ip now. ev = Connection sid ip now"
    proof (rule ccontr)
      assume "\<not> (\<exists>sid ip now. ev = Connection sid ip now)"
      with st have "rosters out = []" by (intro rosters_no_connection) auto
      with rr show False by simp
    qed
    then obtain sid ip now where ev: "ev = Connection sid ip now" by blast
    with assms(2) st have fresh: "\<not> Map_has (devices (server w)) sid"
      and c: "on_connection (server w) sid ip now = Inr (server w', out)" by simp_all
    from connection_isolated(1) [OF t fresh c] a have di: "dst = ToSocket i" "i = sid"
      by blast+
    from connection_isolated(2) [OF t fresh c] di(2)
    have "Map_get (devices (server w')) i = Some (new_device sid now (getNetworkGroup ip))"
      by simp
    with di(1) roster_sound [OF t fresh c rr] show ?thesis
      by (simp add: new_device_sel)
  qed
  have B: "\<exists>dr dx. Map_get (devices (server w')) r = Some dr \<and>
         Map_get (devices (server w')) x = Some dx \<and> groupKey dr = groupKey dx"
    if "(r, ''device-joined'', IdP x) \<in> set (delivered w ev)" for r x
  proof -
    from that mem_deliveries obtain dst where "Emit dst ''device-joined'' (IdP x) \<in> set out"
      and "dst = ToRoom r \<or> dst = ToSocket r"
      unfolding del by blast
    from step_id_notes [OF t assms(2) st this(1)] this(2) show ?thesis by auto
  qed
  have C: "\<exists>dr dx. Map_get (devices (server w)) r = Some dr \<and>
         Map_get (devices (server w)) x = Some dx \<and> groupKey dr = groupKey dx"
    if "(r, ''device-left'', IdP x) \<in> set (delivered w ev)" for r x
  proof -
    from that mem_deliveries obtain dst where "Emit dst ''device-left'' (IdP x) \<in> set out"
      and "dst = ToRoom r \<or> dst = ToSocket r"
      unfolding del by blast
    from step_id_notes [OF t assms(2) st this(1)] this(2) show ?thesis by auto
  qed
  from A B C show ?thesis by blast
qed

lemma join_lan_world:
  "world_step lan_world (Connection ''c'' ''10.0.0.3'' 41000) =
     Inr (trio_world,
          [Emit (ToSocket ''c'') ''device-info''
             (DeviceInfoP ''c'' [new_device ''a'' 25000 ''LAN-10'', new_device ''b'' 0 ''LAN-10'']),
           Emit (ToRoom ''a'') ''device-joined'' (IdP ''c''),
           Emit (ToRoom ''b'') ''device-joined'' (IdP ''c'')])"
  by (simp add: lan_world_def trio_world_def handler_defs Map_defs group_of_examples
      List.map_filter_simps Let_def insert_commute)

lemma group_isolation_on_orderly_runs_example:
  "Map_get (devices (server lan_world)) (id_dev (new_device ''a'' 25000 ''LAN-10'')) =
     Some (new_device ''a'' 25000 ''LAN-10'') \<and>
   (\<exists>d. Map_get (devices (server trio_world)) ''c'' = Some d \<and>
      groupKey (new_device ''a'' 25000 ''LAN-10'') = groupKey d) \<and>
   (\<exists>dr dx. Map_get (devices (server trio_world)) ''a'' = Some dr \<and>
      Map_get (devices (server trio_world)) ''c'' = Some dx \<and> groupKey dr = groupKey dx) \<and>
   (\<exists>dr dx. Map_get (devices (server lan_world)) ''a'' = Some dr \<and>
      Map_get (devices (server lan_world)) ''b'' = Some dx \<and> groupKey dr = groupKey dx)"
proof -
  let ?a = "new_device ''a'' 25000 ''LAN-10''"
  let ?out = "[Emit (ToSocket ''c'') ''device-info'' (DeviceInfoP ''c'' [?a, new_device ''b'' 0 ''LAN-10'']),
           Emit (ToRoom ''a'') ''device-joined'' (IdP ''c''),
           Emit (ToRoom ''b'') ''device-joined'' (IdP ''c'')]"
  have o1: "orderly (server lan_world) (Connection ''c'' ''10.0.0.3'' 41000)"
    by (simp add: lan_world_def Map_defs)
  note j = group_isolation_on_orderly_runs [OF reachable_orderly_lan_world o1 join_lan_world]
  have h1: "Emit (ToSocket ''c'') ''device-info'' (DeviceInfoP ''c'' [?a, new_device ''b'' 0 ''LAN-10''])
      \<in> set ?out \<and> ?a \<in> set [?a, new_device ''b'' 0 ''LAN-10'']" by simp
  have h2: "(''a'', ''device-joined'', IdP ''c'')
      \<in> set (delivered lan_world (Connection ''c'' ''10.0.0.3'' 41000))"
    by (simp add: delivered_def join_lan_world deliveries_def trio_world_def)
  from j h1 have c1: "Map_get (devices (server lan_world)) (id_dev ?a) = Some ?a \<and>
      (\<exists>d. Map_get (devices (server trio_world)) ''c'' = Some d \<and> groupKey ?a = groupKey d)"
    by blast
  from j h2 have c2: "\<exists>dr dx. Map_get (devices (server trio_world)) ''a'' = Some dr \<and>
      Map_get (devices (server trio_world)) ''c'' = Some dx \<and> groupKey dr = groupKey dx"
    by blast
  have o2: "orderly (server lan_world) (Cleanup 40000)" by simp
  note s = group_isolation_on_orderly_runs [OF reachable_orderly_lan_world o2 sweep_lan_world]
  have h3: "(''a'', ''device-left'', IdP ''b'') \<in> set (delivered lan_world (Cleanup 40000))"
    by (simp add: delivered_def sweep_lan_world deliveries_def swept_world_def)
  from s h3 have c3: "\<exists>dr dx. Map_get (devices (server lan_world)) ''a'' = Some dr \<and>
      Map_get (devices (server lan_world)) ''b'' = Some dx \<and> groupKey dr = groupKey dx"
    by blast
  from c1 c2 c3 show ?thesis by simp
qed

subsection \<open>Group isolation after a reused socket id\<close>

text \<open>
  Claim C5 after a socket id was used twice. In \<open>stale_world\<close>, reached by \<open>stale_trace\<close>,
  the id \<open>s\<close> is registered under the key \<open>8.8.8\<close> and still in the set of \<open>LAN-10\<close>,
  where the connection handler left it when it dropped the first record of \<open>s\<close>. A new
  socket \<open>u\<close> now connects from 10.0.0.3 and is registered under \<open>LAN-10\<close>: the roster it
  receives lists the record of \<open>s\<close>, and \<open>s\<close> receives the \<^verbatim>\<open>device-joined\<close> about \<open>u\<close>.
  If instead \<open>t\<close>, registered under \<open>LAN-10\<close>, disconnects, \<open>s\<close> receives the
  \<^verbatim>\<open>device-left\<close> about \<open>t\<close>. (On orderly runs no roster and no notice crosses two
  groups: \<open>group_isolation_on_orderly_runs\<close>.)
\<close>

theorem C5_reused_id_crosses_groups:
  "run world0 stale_trace = Inr stale_world \<and>
   Map_get (devices (server stale_world)) ''s'' = Some (new_device ''s'' 5 ''8.8.8'') \<and>
   groupKey (new_device ''s'' 5 ''8.8.8'') = Some ''8.8.8'' \<and>
   Map_get (devices (server stale_world)) ''t'' = Some (new_device ''t'' 0 ''LAN-10'') \<and>
   groupKey (new_device ''t'' 0 ''LAN-10'') = Some ''LAN-10'' \<and>
   \<not> Map_has (devices (server stale_world)) ''u'' \<and>
   getNetworkGroup ''10.0.0.3'' = ''LAN-10'' \<and>
   delivered stale_world (Connection ''u'' ''10.0.0.3'' 10) =
     [(''u'', ''device-info'',
       DeviceInfoP ''u'' [new_device ''s'' 5 ''8.8.8'', new_device ''t'' 0 ''LAN-10'']),
      (''s'', ''device-joined'', IdP ''u''),
      (''t'', ''device-joined'', IdP ''u'')] \<and>
   delivered stale_world (Disconnect ''t'') = [(''s'', ''device-left'', IdP ''t'')]"
proof -
  have k: "Map_get (devices (server stale_world)) ''s'' = Some (new_device ''s'' 5 ''8.8.8'') \<and>
      groupKey (new_device ''s'' 5 ''8.8.8'') = Some ''8.8.8'' \<and>
      Map_get (devices (server stale_world)) ''t'' = Some (new_device ''t'' 0 ''LAN-10'') \<and>
      groupKey (new_device ''t'' 0 ''LAN-10'') = Some ''LAN-10'' \<and>
      \<not> Map_has (devices (server stale_world)) ''u''"
    by (simp add: stale_world_def Map_defs new_device_def)
  have d: "delivered stale_world (Connection ''u'' ''10.0.0.3'' 10) =
     [(''u'', ''device-info'',
       DeviceInfoP ''u'' [new_device ''s'' 5 ''8.8.8'', new_device ''t'' 0 ''LAN-10'']),
      (''s'', ''device-joined'', IdP ''u''),
      (''t'', ''device-joined'', IdP ''u'')]"
    by (simp add: delivered_def stale_world_def handler_defs Map_defs group_of_examples
        List.map_filter_simps Let_def)
  have l: "delivered stale_world (Disconnect ''t'') = [(''s'', ''device-left'', IdP ''t'')]"
    by (simp add: delivered_def stale_world_def handler_defs Map_defs Let_def)
  from run_stale_trace k d l group_of_examples(3) show ?thesis by simp
qed

end
